theory Spec2Isabelle
  imports Main "HOL-Library.Word"
begin

chapter \<open>The program\<close>

section \<open>Low-level synchronisation (runtime/ucoresmp/thread.c)\<close>

subsection \<open>The kernel semaphores behind the system calls\<close>

text \<open>
  thread.c reaches the kernel through four system calls declared in
  ucoresmp/amd64/sys.s: \<open>sem_init\<close>, \<open>sem_post\<close>, \<open>sem_wait\<close> and \<open>sem_free\<close>.
  Every call a thread issues is appended to \<open>ktrace\<close>, so "which kernel operations does
  this function perform" is a statement about that list.
\<close>

datatype kcall =
    SemInit "32 word"
  | SemPost "32 word"
  | SemWait "32 word" "32 word"
  | SemFree "32 word"

record kern =
  semval :: "32 word \<Rightarrow> nat"
  nextsem :: "32 word"
  ktrace :: "kcall list"

text \<open>
  What a runtime function does to its caller: it returns, it leaves the caller parked
  inside \<open>sem_wait\<close> (the state is the one in which the thread sleeps), or it aborts
  the process through \<open>runtime\<cdot>throw\<close>.
\<close>

datatype 'a outcome = Returned 'a | Parked 'a | Threw string 'a

fun outcome_state :: "'a outcome \<Rightarrow> 'a" where
  "outcome_state (Returned s) = s"
| "outcome_state (Parked s) = s"
| "outcome_state (Threw msg s) = s"

text \<open>
  Modelled from the spec: the kernel side of the semaphore system calls is not among the
  sources (only their stubs in sys.s are). A kernel semaphore is a counter: \<open>sem_init\<close>
  hands out a new handle holding the given value, \<open>sem_post\<close> adds one, \<open>sem_wait\<close>
  takes one when the counter is positive and otherwise blocks the caller, who consumes
  the next post when woken.
\<close>

definition sem_init :: "32 word \<Rightarrow> kern \<Rightarrow> 32 word \<times> kern" where
  "sem_init v k =
     (nextsem k,
      k\<lparr>semval := (semval k)(nextsem k := unat v),
        nextsem := nextsem k + 1,
        ktrace := ktrace k @ [SemInit v]\<rparr>)"

definition sem_free :: "32 word \<Rightarrow> kern \<Rightarrow> kern" where
  "sem_free s k = k\<lparr>semval := (semval k)(s := 0), ktrace := ktrace k @ [SemFree s]\<rparr>"

definition sem_post :: "32 word \<Rightarrow> kern \<Rightarrow> kern" where
  "sem_post s k =
     k\<lparr>semval := (semval k)(s := Suc (semval k s)), ktrace := ktrace k @ [SemPost s]\<rparr>"

definition sem_wait :: "32 word \<Rightarrow> 32 word \<Rightarrow> kern \<Rightarrow> bool \<times> kern" where
  "sem_wait s timeout k =
     (let k1 = k\<lparr>ktrace := ktrace k @ [SemWait s timeout]\<rparr>
      in if 0 < semval k s
         then (True, k1\<lparr>semval := (semval k)(s := semval k s - 1)\<rparr>)
         else (False, k1))"

text \<open>A thread parked in \<open>sem_wait\<close> continues by taking the post that woke it.\<close>

definition sem_wait_resume :: "32 word \<Rightarrow> kern \<Rightarrow> bool \<times> kern" where
  "sem_wait_resume s k =
     (if 0 < semval k s
      then (True, k\<lparr>semval := (semval k)(s := semval k s - 1)\<rparr>)
      else (False, k))"

subsection \<open>Atomic operations\<close>

text \<open>
  \<open>runtime\<cdot>cas\<close> as the comment in \<open>initsema\<close> spells it out: the cell is replaced and
  true returned when it holds the expected value, and left alone otherwise.
\<close>

definition cas :: "32 word \<Rightarrow> 32 word \<Rightarrow> 32 word \<Rightarrow> bool \<times> 32 word" where
  "cas cell old new = (if cell = old then (True, new) else (False, cell))"

text \<open>
  Modelled from the spec: \<open>runtime\<cdot>xadd\<close> lives in the architecture's assembly, which is
  not among the sources. It adds the delta to the cell atomically and returns the new
  contents (the "atomically decremented counter" that the callers test); the addition
  wraps at 32 bits.
\<close>

definition xadd :: "32 word \<Rightarrow> 32 word \<Rightarrow> 32 word \<times> 32 word" where
  "xadd cell delta = (cell + delta, cell + delta)"

subsection \<open>initsema\<close>

text \<open>
  \<open>initsema(psema, value)\<close>: the first argument is the cell \<open>*psema\<close>; the result is the
  cell afterwards.
\<close>

definition initsema :: "32 word \<Rightarrow> 32 word \<Rightarrow> kern \<Rightarrow> 32 word \<times> kern" where
  "initsema psema v k =
     (if psema \<noteq> 0 then (psema, k)
      else
        let (sema, k1) = sem_init v k;
            (ok, psema') = cas psema 0 sema
        in if \<not> ok then (psema', sem_free sema k1) else (psema', k1))"

subsection \<open>runtime\<cdot>lock and runtime\<cdot>unlock\<close>

record Lock =
  key :: "32 word"
  sema :: "32 word"

text \<open>Of the per-thread structure \<open>M\<close> only the lock count matters here.\<close>

record M =
  locks :: "32 word"

definition lock :: "Lock \<Rightarrow> M \<Rightarrow> kern \<Rightarrow> (Lock \<times> M \<times> kern) outcome" where
  "lock l m k =
     (if locks m <s 0 then Threw ''lock count'' (l, m, k)
      else
        let m1 = m\<lparr>locks := locks m + 1\<rparr>;
            (v, key1) = xadd (key l) 1;
            l1 = l\<lparr>key := key1\<rparr>
        in if v > 1
           then
             let (sema1, k1) = (if sema l1 = 0 then initsema (sema l1) 0 k else (sema l1, k));
                 l2 = l1\<lparr>sema := sema1\<rparr>;
                 (woken, k2) = sem_wait (sema l2) 0 k1
             in if woken then Returned (l2, m1, k2) else Parked (l2, m1, k2)
           else Returned (l1, m1, k))"

definition unlock :: "Lock \<Rightarrow> M \<Rightarrow> kern \<Rightarrow> (Lock \<times> M \<times> kern) outcome" where
  "unlock l m k =
     (let m1 = m\<lparr>locks := locks m - 1\<rparr>
      in if locks m1 <s 0 then Threw ''lock count'' (l, m1, k)
         else
           let (v, key1) = xadd (key l) (-1);
               l1 = l\<lparr>key := key1\<rparr>
           in if v > 0
              then
                let (sema1, k1) = (if sema l1 = 0 then initsema (sema l1) 0 k else (sema l1, k));
                    l2 = l1\<lparr>sema := sema1\<rparr>
                in Returned (l2, m1, sem_post (sema l2) k1)
              else Returned (l1, m1, k))"

subsection \<open>The user-level semaphore\<close>

record Usema =
  u :: "32 word"
  k :: "32 word"

definition usemacquire :: "Usema \<Rightarrow> kern \<Rightarrow> (Usema \<times> kern) outcome" where
  "usemacquire s kn =
     (let (v, u1) = xadd (u s) (-1);
          s1 = s\<lparr>u := u1\<rparr>
      in if sint v < 0
         then
           let (k1, kn1) = (if k s1 = 0 then initsema (k s1) 0 kn else (k s1, kn));
               s2 = s1\<lparr>k := k1\<rparr>;
               (woken, kn2) = sem_wait (k s2) 0 kn1
           in if woken then Returned (s2, kn2) else Parked (s2, kn2)
         else Returned (s1, kn))"

definition usemrelease :: "Usema \<Rightarrow> kern \<Rightarrow> Usema \<times> kern" where
  "usemrelease s kn =
     (let (v, u1) = xadd (u s) 1;
          s1 = s\<lparr>u := u1\<rparr>
      in if sint v \<le> 0
         then
           let (k1, kn1) = (if k s1 = 0 then initsema (k s1) 0 kn else (k s1, kn));
               s2 = s1\<lparr>k := k1\<rparr>
           in (s2, sem_post (k s2) kn1)
         else (s1, kn))"

text \<open>The kernel calls a function added to the trace.\<close>

definition issued :: "kern \<Rightarrow> kern \<Rightarrow> kcall list" where
  "issued before after = drop (length (ktrace before)) (ktrace after)"

fun is_wait :: "kcall \<Rightarrow> bool" where
  "is_wait (SemWait s t) = True"
| "is_wait c = False"

fun is_post :: "kcall \<Rightarrow> bool" where
  "is_post (SemPost s) = True"
| "is_post c = False"

text \<open>A kernel that has issued no semaphore yet; handle 0 means "no semaphore".\<close>

definition kern0 :: kern where
  "kern0 = \<lparr>semval = (\<lambda>s. 0), nextsem = 1, ktrace = []\<rparr>"

section \<open>Notes: one-time notifications (thread.c)\<close>

text \<open>
  Modelled from the spec: the declaration of \<open>Note\<close> is in runtime.h, which is not among
  the sources. \<open>noteclear\<close> stores to \<open>n->state\<close> while \<open>notewakeup\<close> and \<open>notesleep\<close>
  use \<open>n->wakeup\<close>; the spec has \<open>clear\<close> reset the event that \<open>wakeup\<close> sets, so the two
  members are the same first word of the note (alternatives of a union), here \<open>word0\<close>,
  followed by the user semaphore.
\<close>

record Note =
  word0 :: "32 word"
  note_sema :: Usema

definition wakeup :: "Note \<Rightarrow> 32 word" where
  "wakeup n = word0 n"

text \<open>\<open>n->state = 0\<close>\<close>

definition noteclear :: "Note \<Rightarrow> Note" where
  "noteclear n = n\<lparr>word0 := 0\<rparr>"

text \<open>\<open>n->wakeup = 1; runtime\<cdot>usemrelease(&n->sema)\<close>, on the note and the kernel together.\<close>

definition notewakeup :: "Note \<times> kern \<Rightarrow> Note \<times> kern" where
  "notewakeup = (\<lambda>(n, kn).
     let n1 = n\<lparr>word0 := 1\<rparr>;
         (s1, kn1) = usemrelease (note_sema n1) kn
     in (n1\<lparr>note_sema := s1\<rparr>, kn1))"

text \<open>
  \<open>while(!n->wakeup) runtime\<cdot>usemacquire(&n->sema)\<close>. Each turn of the loop either
  takes a unit of the kernel semaphore or, without a kernel call, lowers the user
  counter, so the loop ends: by returning, or with the caller parked in the kernel.
\<close>

function notesleep :: "Note \<Rightarrow> kern \<Rightarrow> (Note \<times> kern) outcome" where
  "notesleep n kn =
     (if wakeup n \<noteq> 0 then Returned (n, kn)
      else (case usemacquire (note_sema n) kn of
              Returned (s1, kn1) \<Rightarrow> notesleep (n\<lparr>note_sema := s1\<rparr>) kn1
            | Parked (s1, kn1) \<Rightarrow> Parked (n\<lparr>note_sema := s1\<rparr>, kn1)
            | Threw msg (s1, kn1) \<Rightarrow> Threw msg (n\<lparr>note_sema := s1\<rparr>, kn1)))"
  by pat_completeness auto

termination
proof (relation "measures [\<lambda>(n, kn). semval kn (k (note_sema n)), \<lambda>(n, kn). unat (u (note_sema n))]")
  show "wf (measures [\<lambda>(n, kn). semval kn (k (note_sema n)), \<lambda>(n, kn). unat (u (note_sema n))])"
    by simp
next
  fix n kn x1 s1 kn1
  assume "usemacquire (note_sema n) kn = Returned x1" "(s1, kn1) = x1"
  then have r: "usemacquire (note_sema n) kn = Returned (s1, kn1)" by simp
  let ?s = "note_sema n"
  have "semval kn1 (k s1) < semval kn (k ?s)
        \<or> (semval kn1 (k s1) = semval kn (k ?s) \<and> unat (u s1) < unat (u ?s))"
  proof (cases "sint (u ?s - 1) < 0")
    case True
    with r show ?thesis
      by (auto simp: usemacquire_def xadd_def Let_def split_beta initsema_def sem_init_def
          cas_def sem_wait_def split: if_splits)
  next
    case False
    then have "u ?s \<noteq> 0" by auto
    then have "unat (u ?s - 1) < unat (u ?s)"
      by (simp add: unat_minus_one unat_gt_0)
    with False r show ?thesis
      by (auto simp: usemacquire_def xadd_def Let_def split_beta)
  qed
  then show "((n\<lparr>note_sema := s1\<rparr>, kn1), (n, kn))
          \<in> measures [\<lambda>(n, kn). semval kn (k (note_sema n)), \<lambda>(n, kn). unat (u (note_sema n))]"
    by auto
qed

text \<open>A sleeper parked inside \<open>notesleep\<close> that the kernel wakes goes on with the loop.\<close>

definition notesleep_resume :: "Note \<Rightarrow> kern \<Rightarrow> (Note \<times> kern) outcome" where
  "notesleep_resume n kn =
     (case sem_wait_resume (k (note_sema n)) kn of
        (True, kn1) \<Rightarrow> notesleep n kn1
      | (False, kn1) \<Rightarrow> Parked (n, kn1))"

declare notesleep.simps [simp del]

definition note0 :: Note where
  "note0 = \<lparr>word0 = 1, note_sema = \<lparr>u = 1, k = 0\<rparr>\<rparr>"

section \<open>Channels\<close>

text \<open>
  Modelled from the spec: the channel implementation (\<open>runtime/chan.c\<close>) is not among the
  sources. The definitions below follow sections 3 and 4.8 of the specification word for
  word: a channel has a capacity, a buffer, a FIFO of tasks waiting to send (each with
  its value), a FIFO of tasks waiting to receive and a closed flag; \<open>chan_send\<close>,
  \<open>chan_recv\<close> and \<open>chan_close\<close> test their cases in the order the specification lists
  them. The element type's zero value is \<open>0\<close>.
\<close>

type_synonym task = nat

record 'a chan =
  cap :: nat
  buf :: "'a list"
  sendq :: "(task \<times> 'a) list"
  recvq :: "task list"
  closed :: bool

definition chan_make :: "nat \<Rightarrow> 'a chan" where
  "chan_make capacity = \<lparr>cap = capacity, buf = [], sendq = [], recvq = [], closed = False\<rparr>"

text \<open>
  A send is fatal, completes (naming the receiver it handed its value to, with the
  receiver's result), or leaves the sender blocked on the channel.
\<close>

datatype 'a send_outcome =
    SendFatal string
  | SendDone "'a chan" "(task \<times> 'a \<times> bool) list"
  | SendBlocked "'a chan"

definition chan_send :: "'a chan \<Rightarrow> task \<Rightarrow> 'a \<Rightarrow> 'a send_outcome" where
  "chan_send ch me v =
     (if closed ch then SendFatal ''send on closed channel''
      else case recvq ch of
             r # rs \<Rightarrow> SendDone (ch\<lparr>recvq := rs\<rparr>) [(r, v, True)]
           | [] \<Rightarrow>
               if length (buf ch) < cap ch then SendDone (ch\<lparr>buf := buf ch @ [v]\<rparr>) []
               else SendBlocked (ch\<lparr>sendq := sendq ch @ [(me, v)]\<rparr>))"

text \<open>
  A receive completes with a value and the ok indicator (naming the senders it made
  runnable), or leaves the receiver blocked on the channel.
\<close>

datatype 'a recv_outcome =
    RecvDone "'a \<times> bool" "'a chan" "task list"
  | RecvBlocked "'a chan"

definition chan_recv :: "('a :: zero) chan \<Rightarrow> task \<Rightarrow> 'a recv_outcome" where
  "chan_recv ch me =
     (case sendq ch of
        (s, v) # ss \<Rightarrow> RecvDone (v, True) (ch\<lparr>sendq := ss\<rparr>) [s]
      | [] \<Rightarrow>
          (case buf ch of
             b # bs \<Rightarrow>
               (case sendq ch of
                  (s, v) # ss \<Rightarrow> RecvDone (b, True) (ch\<lparr>buf := bs @ [v], sendq := ss\<rparr>) [s]
                | [] \<Rightarrow> RecvDone (b, True) (ch\<lparr>buf := bs\<rparr>) [])
           | [] \<Rightarrow>
               if closed ch then RecvDone (0, False) ch []
               else RecvBlocked (ch\<lparr>recvq := recvq ch @ [me]\<rparr>)))"

text \<open>
  A close is fatal (on a closed channel, or when it meets a blocked sender), or completes,
  naming the receivers it released with their results.
\<close>

datatype 'a close_outcome =
    CloseFatal string
  | CloseDone "'a chan" "(task \<times> 'a \<times> bool) list"

definition chan_close :: "('a :: zero) chan \<Rightarrow> 'a close_outcome" where
  "chan_close ch =
     (if closed ch then CloseFatal ''close of closed channel''
      else if sendq ch \<noteq> [] then CloseFatal ''close with blocked senders''
      else CloseDone (ch\<lparr>closed := True, recvq := []\<rparr>) (map (\<lambda>r. (r, 0, False)) (recvq ch)))"

text \<open>The channels a program can hold: made by \<open>chan_make\<close> and changed by the three
  operations only.\<close>

inductive reachable :: "('a :: zero) chan \<Rightarrow> bool" where
  made: "reachable (chan_make capacity)"
| sent: "reachable ch \<Longrightarrow> chan_send ch me v = SendDone ch' woken \<Longrightarrow> reachable ch'"
| send_blocked: "reachable ch \<Longrightarrow> chan_send ch me v = SendBlocked ch' \<Longrightarrow> reachable ch'"
| received: "reachable ch \<Longrightarrow> chan_recv ch me = RecvDone res ch' woken \<Longrightarrow> reachable ch'"
| recv_blocked: "reachable ch \<Longrightarrow> chan_recv ch me = RecvBlocked ch' \<Longrightarrow> reachable ch'"
| closed: "reachable ch \<Longrightarrow> chan_close ch = CloseDone ch' woken \<Longrightarrow> reachable ch'"

definition chan_waiting :: "int chan" where
  "chan_waiting = \<lparr>cap = 0, buf = [], sendq = [], recvq = [7], closed = False\<rparr>"

definition chan_shut :: "int chan" where
  "chan_shut = \<lparr>cap = 0, buf = [], sendq = [], recvq = [], closed = True\<rparr>"

section \<open>time.Sleep (pkg/time/sleep.go)\<close>

text \<open>
  \<open>sleep\<close> talks to the operating system twice per turn of its loop: \<open>sysSleep\<close> may
  fail, and \<open>Nanoseconds\<close> reads the clock (and panics when \<open>os.Time\<close> fails). What the
  system answers on each turn is the list the model consumes; when the list runs out
  while the loop still wants to sleep, the model has no result (\<open>None\<close>).
\<close>

datatype 'e tick = SleepFails 'e | TimeFails 'e | Now "64 word"

datatype 'e sleep_result = Ret "64 word" "'e option" | Panic 'e

fun sleep_loop :: "64 word \<Rightarrow> 64 word \<Rightarrow> 'e tick list \<Rightarrow> 'e sleep_result option" where
  "sleep_loop endt t env =
     (if t <s endt
      then (case env of
              [] \<Rightarrow> None
            | SleepFails e # rest \<Rightarrow> Some (Ret 0 (Some e))
            | TimeFails e # rest \<Rightarrow> Some (Panic e)
            | Now t' # rest \<Rightarrow> sleep_loop endt t' rest)
      else Some (Ret t None))"

definition sleep :: "64 word \<Rightarrow> 64 word \<Rightarrow> 'e tick list \<Rightarrow> 'e sleep_result option" where
  "sleep t ns env = sleep_loop (t + ns) t env"

declare sleep_loop.simps [simp del]

section \<open>The fan-in test (testsuit/peter.go)\<close>

text \<open>
  \<open>ready(index)\<close> sleeps \<open>index\<close> seconds, prints \<open>index\<close> and sends the constant 1 on
  the shared channel. \<open>main\<close> makes the unbuffered channel, starts \<open>ready(i + 1)\<close> for
  \<open>i = 0, ..., total - 1\<close> and then receives \<open>total\<close> times, dropping what it receives.
\<close>

datatype stmt = SleepNs int | Println int | Send int

definition ready :: "int \<Rightarrow> stmt list" where
  "ready index = [SleepNs (index * 1000000000), Println index, Send 1]"

definition total :: nat where
  "total = 10"

definition spawned :: "stmt list list" where
  "spawned = map (\<lambda>i. ready (int i + 1)) [0..<total]"

fun sent_values :: "stmt list \<Rightarrow> int list" where
  "sent_values [] = []"
| "sent_values (Send v # rest) = v # sent_values rest"
| "sent_values (other # rest) = sent_values rest"

fun printed_values :: "stmt list \<Rightarrow> int list" where
  "printed_values [] = []"
| "printed_values (Println v # rest) = v # printed_values rest"
| "printed_values (other # rest) = printed_values rest"

text \<open>
  On an unbuffered channel every receive takes the value of one send. The tasks wake in
  the order of their sleeps, which is the order they were started in, so the \<open>total\<close>
  receives of \<open>main\<close> see the sends in that order.
\<close>

definition main_received :: "int list" where
  "main_received = take total (concat (map sent_values spawned))"

definition main_printed :: "int list" where
  "main_printed = concat (map printed_values spawned)"

section \<open>Memory from the system (runtime/ucoresmp/mem.c)\<close>

record memory =
  bytes :: "64 word \<Rightarrow> 8 word"
  mapped :: "64 word \<Rightarrow> bool"
  sys :: "64 word"

datatype 'a fault = Fault | Ok 'a

text \<open>
  \<open>runtime\<cdot>mmap((void*)&p, n, MMAP_WRITE, 0, 0, 0)\<close>: the system call of sys.s, whose
  kernel side is not among the sources. Its answer is the parameter \<open>granted\<close>: the
  address of a fresh region of \<open>n\<close> bytes, which the kernel stores through the pointer,
  or nothing, and then \<open>p\<close> keeps its value. A fresh region holds whatever the memory
  held before.
\<close>

fun region :: "64 word \<Rightarrow> nat \<Rightarrow> 64 word list" where
  "region p 0 = []"
| "region p (Suc n) = p # region (p + 1) n"

definition mmap :: "64 word \<Rightarrow> 64 word \<Rightarrow> 64 word option \<Rightarrow> memory \<Rightarrow> 64 word \<times> memory" where
  "mmap p n granted mem =
     (case granted of
        None \<Rightarrow> (p, mem)
      | Some a \<Rightarrow> (a, mem\<lparr>mapped := (\<lambda>x. x \<in> set (region a (unat n)) \<or> mapped mem x)\<rparr>))"

text \<open>\<open>runtime\<cdot>memclr(p, n)\<close> stores \<open>n\<close> zero bytes from \<open>p\<close> on; a store to an unmapped
  address is a fault that ends the process.\<close>

fun clear_bytes :: "(64 word \<Rightarrow> 8 word) \<Rightarrow> 64 word list \<Rightarrow> (64 word \<Rightarrow> 8 word)" where
  "clear_bytes b [] = b"
| "clear_bytes b (a # as) = clear_bytes (b(a := 0)) as"

definition memclr :: "64 word \<Rightarrow> 64 word \<Rightarrow> memory \<Rightarrow> memory fault" where
  "memclr p n mem =
     (if list_all (mapped mem) (region p (unat n))
      then Ok (mem\<lparr>bytes := clear_bytes (bytes mem) (region p (unat n))\<rparr>)
      else Fault)"

definition SysAlloc :: "64 word \<Rightarrow> 64 word option \<Rightarrow> memory \<Rightarrow> (64 word \<times> memory) fault" where
  "SysAlloc n granted mem =
     (let p = 0;
          mem1 = mem\<lparr>sys := sys mem + n\<rparr>;
          (p1, mem2) = mmap p n granted mem1
      in case memclr p1 n mem2 of
           Fault \<Rightarrow> Fault
         | Ok mem3 \<Rightarrow> Ok (p1, mem3))"

text \<open>
  Modelled from the spec: the allocator entry (\<open>runtime\<cdot>mallocgc\<close>) is not among the
  sources. It hands out a block \<open>p\<close> of \<open>size\<close> mapped bytes of its heap, which may hold
  the data of an earlier object, and clears the block unless the caller passed the
  \<open>no_zero\<close> flag.
\<close>

record alloc_flags =
  no_pointers :: bool
  no_zero :: bool
  no_profile :: bool

definition alloc :: "64 word \<Rightarrow> alloc_flags \<Rightarrow> 64 word \<Rightarrow> memory \<Rightarrow> (64 word \<times> memory) fault" where
  "alloc n flags p mem =
     (if no_zero flags then Ok (p, mem)
      else case memclr p n mem of Fault \<Rightarrow> Fault | Ok mem1 \<Rightarrow> Ok (p, mem1))"

definition mem_dirty :: memory where
  "mem_dirty = \<lparr>bytes = (\<lambda>a. 255), mapped = (\<lambda>a. a = 8192 \<or> a = 8193), sys = 0\<rparr>"

definition flags_plain :: alloc_flags where
  "flags_plain = \<lparr>no_pointers = False, no_zero = False, no_profile = False\<rparr>"

section \<open>The finalizer table (runtime/mfinal.c)\<close>

subsection \<open>Data\<close>

text \<open>
  Addresses are 64-bit words; \<open>nil\<close> is 0 and \<open>(void*)-1\<close>, the mark of a deleted entry,
  is the word of all ones. A \<open>Finalizer*\<close> is an optional finalizer (\<open>None\<close> for \<open>nil\<close>).
  The \<open>int32\<close> members of \<open>Fintab\<close> are integers, with the 32-bit wrap-around of the
  arithmetic done on them written out in \<open>int32\<close>; slot indices (always below \<open>max\<close>)
  are natural numbers. The members \<open>key\<close>, \<open>val\<close> and \<open>max\<close> carry the suffix \<open>_tab\<close>.
\<close>

type_synonym ptr = "64 word"

record Finalizer =
  fn :: ptr
  nret :: "32 word"

record Fintab =
  key_tab :: "ptr list"
  val_tab :: "Finalizer option list"
  nkey :: int
  ndead :: int
  max_tab :: int

datatype 'a res = Res 'a | Throw string

definition int32 :: "int \<Rightarrow> int" where
  "int32 x = (x + 2 ^ 31) mod 2 ^ 32 - 2 ^ 31"

text \<open>C's division truncates towards zero.\<close>

definition quot :: "int \<Rightarrow> int \<Rightarrow> int" where
  "quot a b = (if (a < 0) = (b < 0) then \<bar>a\<bar> div \<bar>b\<bar> else - (\<bar>a\<bar> div \<bar>b\<bar>))"

text \<open>\<open>(uintptr)k % (uintptr)t->max\<close>\<close>

definition hash_slot :: "ptr \<Rightarrow> int \<Rightarrow> nat" where
  "hash_slot p m = unat p mod nat m"

text \<open>\<open>if(++i == t->max) i = 0\<close>\<close>

definition next_slot :: "nat \<Rightarrow> int \<Rightarrow> nat" where
  "next_slot i m = (if int (i + 1) = m then 0 else i + 1)"

subsection \<open>addfintab\<close>

text \<open>
  The scan of \<open>addfintab\<close>, with the number of turns the \<open>for\<close> loop has left. It stops
  at a slot that is free (\<open>True\<close>) or deleted (\<open>False\<close>); running out of turns is the
  path to \<open>runtime\<cdot>throw\<close>.
\<close>

fun addfintab_scan :: "ptr list \<Rightarrow> int \<Rightarrow> nat \<Rightarrow> nat \<Rightarrow> (bool \<times> nat) option" where
  "addfintab_scan ks m i 0 = None"
| "addfintab_scan ks m i (Suc r) =
     (if ks ! i = 0 then Some (True, i)
      else if ks ! i = - 1 then Some (False, i)
      else addfintab_scan ks m (next_slot i m) r)"

text \<open>With \<open>max = 0\<close> the remainder traps; thread.c turns the trap into a panic.\<close>

definition addfintab :: "Fintab \<Rightarrow> ptr \<Rightarrow> Finalizer option \<Rightarrow> Fintab res" where
  "addfintab t p v =
     (if max_tab t = 0 then Throw ''integer divide by zero''
      else
        case addfintab_scan (key_tab t) (max_tab t) (hash_slot p (max_tab t)) (nat (max_tab t)) of
          None \<Rightarrow> Throw ''finalizer table inconsistent''
        | Some (free, i) \<Rightarrow>
            let t1 = (if free then t\<lparr>nkey := int32 (nkey t + 1)\<rparr>
                      else t\<lparr>ndead := int32 (ndead t - 1)\<rparr>)
            in Res (t1\<lparr>key_tab := (key_tab t1)[i := p], val_tab := (val_tab t1)[i := v]\<rparr>))"

subsection \<open>lookfintab\<close>

text \<open>
  The scan of \<open>lookfintab\<close>: \<open>Some None\<close> when it meets a free slot, \<open>Some (Some i)\<close> when
  slot \<open>i\<close> holds the key, \<open>None\<close> when the loop runs out.
\<close>

fun lookfintab_scan :: "ptr list \<Rightarrow> ptr \<Rightarrow> int \<Rightarrow> nat \<Rightarrow> nat \<Rightarrow> nat option option" where
  "lookfintab_scan ks p m i 0 = None"
| "lookfintab_scan ks p m i (Suc r) =
     (if ks ! i = 0 then Some None
      else if ks ! i = p then Some (Some i)
      else lookfintab_scan ks p m (next_slot i m) r)"

definition lookfintab :: "Fintab \<Rightarrow> ptr \<Rightarrow> bool \<Rightarrow> (Finalizer option \<times> Fintab) res" where
  "lookfintab t p del =
     (if max_tab t = 0 then Res (None, t)
      else
        case lookfintab_scan (key_tab t) p (max_tab t) (hash_slot p (max_tab t)) (nat (max_tab t)) of
          None \<Rightarrow> Throw ''finalizer table inconsistent''
        | Some None \<Rightarrow> Res (None, t)
        | Some (Some i) \<Rightarrow>
            let v = val_tab t ! i
            in if del
               then Res (v, t\<lparr>key_tab := (key_tab t)[i := - 1],
                              val_tab := (val_tab t)[i := None],
                              ndead := int32 (ndead t + 1)\<rparr>)
               else Res (v, t))"

subsection \<open>runtime\<cdot>addfinalizer and runtime\<cdot>getfinalizer\<close>

text \<open>
  The loop of the rehash over the slots of the old table, given as the list of the
  indices still to visit.
\<close>

fun rehash_loop :: "Fintab \<Rightarrow> nat list \<Rightarrow> Fintab \<Rightarrow> Fintab res" where
  "rehash_loop old [] newtab = Res newtab"
| "rehash_loop old (i # rest) newtab =
     (let p = key_tab old ! i
      in if p \<noteq> 0 \<and> p \<noteq> - 1
         then (case addfintab newtab p (val_tab old ! i) of
                 Throw msg \<Rightarrow> Throw msg
               | Res newtab1 \<Rightarrow> rehash_loop old rest newtab1)
         else rehash_loop old rest newtab)"

text \<open>
  The body of \<open>if(fintab.nkey >= fintab.max/2+fintab.max/4)\<close>. \<open>runtime\<cdot>mallocgc\<close> is
  called with the \<open>zeroed\<close> argument set, so both new arrays start out all \<open>nil\<close>.
  A request the heap cannot serve ends the program inside the allocator, which is not
  among the sources; that end is left out here.
\<close>

definition rehash :: "Fintab \<Rightarrow> Fintab res" where
  "rehash fintab =
     (let newmax = (if max_tab fintab = 0 then 3 * 3 * 3
                    else if ndead fintab < quot (nkey fintab) 2 then int32 (max_tab fintab * 3)
                    else max_tab fintab);
          newtab = \<lparr>key_tab = replicate (nat newmax) 0,
                    val_tab = replicate (nat newmax) None,
                    nkey = 0, ndead = 0, max_tab = newmax\<rparr>
      in rehash_loop fintab [0..<nat (max_tab fintab)] newtab)"

text \<open>
  \<open>runtime\<cdot>mlookup\<close> belongs to the allocator, which is not among the sources; it is the
  parameter \<open>mlookup\<close>, giving the base address of the heap object an address lies in,
  if any. The result is the message of the \<open>runtime\<cdot>throw\<close> that ended the call, if one
  did, and the table \<open>fintab\<close> as the call left it. The lock \<open>finlock\<close>, the allocation
  of the \<open>Finalizer\<close> and \<open>runtime\<cdot>setblockspecial\<close> do not touch the table.
\<close>

definition addfinalizer ::
  "(ptr \<Rightarrow> ptr option) \<Rightarrow> ptr \<Rightarrow> ptr \<Rightarrow> 32 word \<Rightarrow> Fintab \<Rightarrow> string option \<times> Fintab" where
  "addfinalizer mlookup p f nr fintab =
     (let e = (if f \<noteq> 0 then Some \<lparr>fn = f, nret = nr\<rparr> else None)
      in if mlookup p \<noteq> Some p then (Some ''addfinalizer on invalid pointer'', fintab)
         else if f = 0
         then (case lookfintab fintab p True of
                 Throw msg \<Rightarrow> (Some msg, fintab)
               | Res (v, fintab1) \<Rightarrow> (None, fintab1))
         else
           case lookfintab fintab p False of
             Throw msg \<Rightarrow> (Some msg, fintab)
           | Res (v, fintab1) \<Rightarrow>
               if v \<noteq> None then (Some ''double finalizer'', fintab1)
               else
                 case (if nkey fintab1 \<ge> quot (max_tab fintab1) 2 + quot (max_tab fintab1) 4
                       then rehash fintab1 else Res fintab1) of
                   Throw msg \<Rightarrow> (Some msg, fintab1)
                 | Res fintab2 \<Rightarrow>
                     (case addfintab fintab2 p e of
                        Throw msg \<Rightarrow> (Some msg, fintab2)
                      | Res fintab3 \<Rightarrow> (None, fintab3)))"

definition getfinalizer :: "ptr \<Rightarrow> bool \<Rightarrow> Fintab \<Rightarrow> (Finalizer option \<times> Fintab) res" where
  "getfinalizer p del fintab = lookfintab fintab p del"

text \<open>The table at program start: a zeroed static variable.\<close>

definition fintab0 :: Fintab where
  "fintab0 = \<lparr>key_tab = [], val_tab = [], nkey = 0, ndead = 0, max_tab = 0\<rparr>"

subsection \<open>Probing\<close>

text \<open>The \<open>j\<close>-th slot a scan starting at slot \<open>h\<close> of \<open>m\<close> visits.\<close>

definition idx :: "nat \<Rightarrow> nat \<Rightarrow> nat \<Rightarrow> nat" where
  "idx m h j = (h + j) mod m"

definition live :: "ptr \<Rightarrow> bool" where
  "live p = (p \<noteq> 0 \<and> p \<noteq> - 1)"

subsection \<open>The shape of a table a lookup can rely on\<close>

text \<open>
  Slot \<open>i\<close> is reached by the scan for \<open>p\<close>: it is the \<open>j\<close>-th slot of the scan and no
  earlier slot of the scan is free.
\<close>

definition reach :: "ptr list \<Rightarrow> ptr \<Rightarrow> nat \<Rightarrow> bool" where
  "reach ks p i =
     (\<exists>j < length ks. idx (length ks) (unat p mod length ks) j = i
        \<and> (\<forall>j' < j. ks ! idx (length ks) (unat p mod length ks) j' \<noteq> 0))"

text \<open>Every key in the table is reached by its own scan, and no key is there twice.\<close>

definition probe_inv :: "ptr list \<Rightarrow> bool" where
  "probe_inv ks =
     ((\<forall>i < length ks. live (ks ! i) \<longrightarrow> reach ks (ks ! i) i)
      \<and> (\<forall>i < length ks. \<forall>j < length ks. live (ks ! i) \<longrightarrow> ks ! i = ks ! j \<longrightarrow> i = j))"

subsection \<open>Well-formed tables\<close>

text \<open>
  What the members of a table mean: the arrays have \<open>max\<close> slots, \<open>nkey\<close> counts the
  slots that are not \<open>nil\<close>, \<open>ndead\<close> those that hold \<open>-1\<close>, the keys can be found, and a
  key has a finalizer.
\<close>

definition tab_inv :: "Fintab \<Rightarrow> bool" where
  "tab_inv t =
     (0 \<le> max_tab t \<and> max_tab t < 2 ^ 31
      \<and> length (key_tab t) = nat (max_tab t)
      \<and> length (val_tab t) = nat (max_tab t)
      \<and> nkey t = int (length (key_tab t)) - int (count_list (key_tab t) 0)
      \<and> ndead t = int (count_list (key_tab t) (- 1))
      \<and> probe_inv (key_tab t)
      \<and> (\<forall>i < length (key_tab t). live (key_tab t ! i) \<longrightarrow> val_tab t ! i \<noteq> None))"

text \<open>
  The invariant of \<open>fintab\<close>: a well-formed table, at most 3/4 full, that is empty or
  has at least 27 slots.
\<close>

definition wf_fintab :: "Fintab \<Rightarrow> bool" where
  "wf_fintab t =
     (tab_inv t
      \<and> nkey t \<le> max_tab t div 2 + max_tab t div 4
      \<and> (max_tab t = 0 \<or> 27 \<le> max_tab t))"

definition installed :: "Fintab \<Rightarrow> ptr \<Rightarrow> bool" where
  "installed t p = (live p \<and> p \<in> set (key_tab t))"

text \<open>The table holds the key \<open>q\<close> with the finalizer \<open>w\<close>.\<close>

definition entry :: "Fintab \<Rightarrow> ptr \<Rightarrow> Finalizer option \<Rightarrow> bool" where
  "entry t q w = (\<exists>i < length (key_tab t). key_tab t ! i = q \<and> val_tab t ! i = w)"

subsection \<open>The tables a program can have\<close>

text \<open>
  Neither \<open>nil\<close> nor the all-ones address is the base of a heap object.
\<close>

definition heap_ok :: "(ptr \<Rightarrow> ptr option) \<Rightarrow> bool" where
  "heap_ok mlookup = (mlookup 0 \<noteq> Some 0 \<and> mlookup (- 1) \<noteq> Some (- 1))"

text \<open>
  \<open>fintab\<close> starts zeroed and is changed by \<open>runtime\<cdot>addfinalizer\<close> and
  \<open>runtime\<cdot>getfinalizer\<close> only; a call that throws ends the program. The garbage
  collector calls \<open>getfinalizer\<close> on heap objects, never on the all-ones address. Tables
  grow by the factor 3, computed in an \<open>int32\<close>: the calls considered are those on tables
  whose tripled size fits (below 715827883 slots).
\<close>

inductive fin_reachable :: "Fintab \<Rightarrow> bool" where
  initial: "fin_reachable fintab0"
| added: "fin_reachable t \<Longrightarrow> heap_ok mlookup \<Longrightarrow> 3 * max_tab t < 2 ^ 31 \<Longrightarrow>
          addfinalizer mlookup p f nr t = (None, t') \<Longrightarrow> fin_reachable t'"
| got: "fin_reachable t \<Longrightarrow> p \<noteq> - 1 \<Longrightarrow> getfinalizer p del t = Res (v, t') \<Longrightarrow>
        fin_reachable t'"

subsection \<open>A table with two colliding keys\<close>

text \<open>
  A heap with objects at 64 (two bytes) and at 91. Both addresses hash to slot 10 of a
  table of 27 slots.
\<close>

definition heap1 :: "ptr \<Rightarrow> ptr option" where
  "heap1 a = (if a = 64 \<or> a = 65 then Some 64 else if a = 91 then Some 91 else None)"

definition tab1 :: Fintab where
  "tab1 = snd (addfinalizer heap1 64 4096 0 fintab0)"

definition tab2 :: Fintab where
  "tab2 = snd (addfinalizer heap1 91 8192 8 tab1)"

chapter \<open>What the program does\<close>

section \<open>Properties: low-level synchronisation (runtime/ucoresmp/thread.c)\<close>

lemma initsema_trace:
  "ktrace (snd (initsema p v kn)) = ktrace kn @ (if p = 0 then [SemInit v] else [])"
  by (simp add: initsema_def sem_init_def cas_def sem_free_def Let_def)

lemma initsema_cell:
  "fst (initsema p v kn) = (if p = 0 then nextsem kn else p)"
  by (simp add: initsema_def sem_init_def cas_def sem_free_def Let_def)

text \<open>
  C10. The user semaphore goes to the kernel only on the blocking paths.
  \<open>usemacquire\<close> issues a kernel wait exactly when the decremented counter is negative
  (preceded by the one-time \<open>sem_init\<close> when no kernel semaphore is attached yet), and
  \<open>usemrelease\<close> issues a kernel post exactly when the incremented counter is at most
  zero; on the other paths neither function issues any kernel call, the kernel state is
  untouched and the function returns at once.
\<close>

theorem usema_kernel_only_when_blocking:
  "issued kn (snd (outcome_state (usemacquire s kn))) =
     (if sint (u s - 1) < 0
      then (if k s = 0 then [SemInit 0, SemWait (nextsem kn) 0] else [SemWait (k s) 0])
      else [])
   \<and> (\<exists>c \<in> set (issued kn (snd (outcome_state (usemacquire s kn)))). is_wait c)
       = (sint (u s - 1) < 0)
   \<and> (\<not> sint (u s - 1) < 0 \<longrightarrow> usemacquire s kn = Returned (s\<lparr>u := u s - 1\<rparr>, kn))
   \<and> issued kn (snd (usemrelease s kn)) =
     (if sint (u s + 1) \<le> 0
      then (if k s = 0 then [SemInit 0, SemPost (nextsem kn)] else [SemPost (k s)])
      else [])
   \<and> (\<exists>c \<in> set (issued kn (snd (usemrelease s kn))). is_post c)
       = (sint (u s + 1) \<le> 0)
   \<and> (\<not> sint (u s + 1) \<le> 0 \<longrightarrow> usemrelease s kn = (s\<lparr>u := u s + 1\<rparr>, kn))"
  by (simp add: usemacquire_def usemrelease_def xadd_def issued_def Let_def
      initsema_trace initsema_cell sem_wait_def sem_post_def split_beta)

theorem usema_kernel_only_when_blocking_witness:
  "\<not> sint (u \<lparr>u = 1, k = 0\<rparr> - 1) < 0
   \<and> usemacquire \<lparr>u = 1, k = 0\<rparr> kern0 = Returned (\<lparr>u = 0, k = 0\<rparr>, kern0)
   \<and> \<not> sint (u \<lparr>u = 0, k = 0\<rparr> + 1) \<le> 0
   \<and> usemrelease \<lparr>u = 0, k = 0\<rparr> kern0 = (\<lparr>u = 1, k = 0\<rparr>, kern0)
   \<and> issued kern0 (snd (outcome_state (usemacquire \<lparr>u = 0, k = 0\<rparr> kern0)))
       = [SemInit 0, SemWait 1 0]
   \<and> issued kern0 (snd (usemrelease \<lparr>u = - 1, k = 1\<rparr> kern0)) = [SemPost 1]"
  using usema_kernel_only_when_blocking [of kern0 "\<lparr>u = 1, k = 0\<rparr>"]
    usema_kernel_only_when_blocking [of kern0 "\<lparr>u = 0, k = 0\<rparr>"]
    usema_kernel_only_when_blocking [of kern0 "\<lparr>u = - 1, k = 1\<rparr>"]
  by (simp add: kern0_def)

text \<open>
  C1 as stated fails: the key is not a three-state word driven by compare-and-swap but
  a count, moved by \<open>xadd\<close>, of the threads that hold or want the mutex. Starting from
  an unlocked mutex, the third \<open>lock\<close> leaves the key at 3, and the \<open>unlock\<close> that
  follows leaves it at 2 rather than at 0.
\<close>

theorem lock_three_state_counterexample:
  "key (fst (outcome_state (lock \<lparr>key = 2, sema = 1\<rparr> \<lparr>locks = 0\<rparr> kern0))) = 3
   \<and> (3 :: 32 word) \<notin> {0, 1, 2}
   \<and> key (fst (outcome_state (unlock \<lparr>key = 3, sema = 1\<rparr> \<lparr>locks = 1\<rparr> kern0))) = 2
   \<and> key (fst (outcome_state (lock \<lparr>key = 0, sema = 0\<rparr> \<lparr>locks = 0\<rparr> kern0))) = 1
   \<and> key (fst (outcome_state (lock \<lparr>key = 1, sema = 0\<rparr> \<lparr>locks = 0\<rparr> kern0))) = 2"
  by (simp add: lock_def unlock_def xadd_def kern0_def initsema_def sem_init_def cas_def
      sem_wait_def sem_post_def Let_def)

text \<open>
  C1, amended. The key counts the threads holding or waiting for the mutex.
  \<open>runtime\<cdot>lock\<close> (when the caller's lock count is not negative) adds one to the key
  atomically and, exactly when the new count exceeds one, waits on the mutex's kernel
  semaphore, which it attaches first if there is none; otherwise it returns without a
  kernel call. \<open>runtime\<cdot>unlock\<close> (when the caller's decremented lock count is not
  negative) subtracts one from the key atomically and, exactly when the new count is
  still above zero, posts that semaphore once, which wakes one waiter; otherwise it
  returns without a kernel call.
\<close>

theorem lock_unlock_counting:
  "(\<not> locks m <s 0 \<longrightarrow>
      key (fst (outcome_state (lock l m kn))) = key l + 1
      \<and> issued kn (snd (snd (outcome_state (lock l m kn)))) =
          (if key l + 1 > 1
           then (if sema l = 0 then [SemInit 0, SemWait (nextsem kn) 0]
                 else [SemWait (sema l) 0])
           else [])
      \<and> (\<not> key l + 1 > 1 \<longrightarrow>
            lock l m kn = Returned (l\<lparr>key := key l + 1\<rparr>, m\<lparr>locks := locks m + 1\<rparr>, kn)))
   \<and> (\<not> locks m - 1 <s 0 \<longrightarrow>
      key (fst (outcome_state (unlock l m kn))) = key l - 1
      \<and> issued kn (snd (snd (outcome_state (unlock l m kn)))) =
          (if key l - 1 > 0
           then (if sema l = 0 then [SemInit 0, SemPost (nextsem kn)]
                 else [SemPost (sema l)])
           else [])
      \<and> (\<not> key l - 1 > 0 \<longrightarrow>
            unlock l m kn = Returned (l\<lparr>key := key l - 1\<rparr>, m\<lparr>locks := locks m - 1\<rparr>, kn)))"
  by (simp add: lock_def unlock_def xadd_def issued_def Let_def
      initsema_trace initsema_cell sem_wait_def sem_post_def split_beta)

theorem lock_unlock_counting_witness:
  "\<not> locks \<lparr>locks = 0\<rparr> <s 0
   \<and> lock \<lparr>key = 0, sema = 0\<rparr> \<lparr>locks = 0\<rparr> kern0
       = Returned (\<lparr>key = 1, sema = 0\<rparr>, \<lparr>locks = 1\<rparr>, kern0)
   \<and> issued kern0 (snd (snd (outcome_state (lock \<lparr>key = 1, sema = 0\<rparr> \<lparr>locks = 0\<rparr> kern0))))
       = [SemInit 0, SemWait 1 0]
   \<and> \<not> locks \<lparr>locks = 1\<rparr> - 1 <s 0
   \<and> unlock \<lparr>key = 1, sema = 0\<rparr> \<lparr>locks = 1\<rparr> kern0
       = Returned (\<lparr>key = 0, sema = 0\<rparr>, \<lparr>locks = 0\<rparr>, kern0)
   \<and> issued kern0 (snd (snd (outcome_state (unlock \<lparr>key = 2, sema = 1\<rparr> \<lparr>locks = 1\<rparr> kern0))))
       = [SemPost 1]"
  using lock_unlock_counting [of "\<lparr>locks = 0\<rparr>" "\<lparr>key = 0, sema = 0\<rparr>" kern0]
    lock_unlock_counting [of "\<lparr>locks = 0\<rparr>" "\<lparr>key = 1, sema = 0\<rparr>" kern0]
    lock_unlock_counting [of "\<lparr>locks = 1\<rparr>" "\<lparr>key = 1, sema = 0\<rparr>" kern0]
    lock_unlock_counting [of "\<lparr>locks = 1\<rparr>" "\<lparr>key = 2, sema = 1\<rparr>" kern0]
  by (simp add: kern0_def)

section \<open>Properties: notes: one-time notifications (thread.c)\<close>

lemma usemacquire_not_Threw: "usemacquire s kn \<noteq> Threw msg st"
  by (simp add: usemacquire_def Let_def split_beta)

lemma usemacquire_Parked:
  "usemacquire s kn = Parked (s', kn') \<Longrightarrow>
     sint (u s') < 0 \<and> semval kn' (k s') = 0 \<and> (nextsem kn \<noteq> 0 \<longrightarrow> k s' \<noteq> 0)"
  apply (auto simp: usemacquire_def xadd_def Let_def split_beta initsema_def sem_init_def
        cas_def sem_wait_def split: if_splits)
  done

lemma usemacquire_nextsem:
  "usemacquire s kn = Returned (s', kn') \<Longrightarrow> nextsem kn' = nextsem kn"
  by (auto simp: usemacquire_def xadd_def Let_def split_beta initsema_def sem_init_def
        cas_def sem_wait_def split: if_splits)

lemma notesleep_blocks:
  "wakeup n = 0 \<Longrightarrow>
     \<exists>n1 kn1. notesleep n kn = Parked (n1, kn1) \<and> wakeup n1 = 0
        \<and> sint (u (note_sema n1)) < 0 \<and> semval kn1 (k (note_sema n1)) = 0
        \<and> (nextsem kn \<noteq> 0 \<longrightarrow> k (note_sema n1) \<noteq> 0)"
proof (induction n kn rule: notesleep.induct)
  case (1 n kn)
  show ?case
  proof (cases "usemacquire (note_sema n) kn")
    case (Returned x)
    obtain s1 kn1 where x: "x = (s1, kn1)" by (cases x)
    have w: "wakeup (n\<lparr>note_sema := s1\<rparr>) = 0" using "1.prems" by (simp add: wakeup_def)
    from "1.IH" [OF _ Returned x [symmetric] w] "1.prems"
    obtain n1 kn2 where "notesleep (n\<lparr>note_sema := s1\<rparr>) kn1 = Parked (n1, kn2)"
      "wakeup n1 = 0" "sint (u (note_sema n1)) < 0" "semval kn2 (k (note_sema n1)) = 0"
      "nextsem kn1 \<noteq> 0 \<longrightarrow> k (note_sema n1) \<noteq> 0"
      by auto
    moreover have "nextsem kn1 = nextsem kn"
      using usemacquire_nextsem Returned x by blast
    ultimately show ?thesis using "1.prems" Returned x
      by (simp add: notesleep.simps [of n kn])
  next
    case (Parked x)
    obtain s1 kn1 where x: "x = (s1, kn1)" by (cases x)
    from usemacquire_Parked [of "note_sema n" kn s1 kn1] Parked x "1.prems"
    show ?thesis by (simp add: notesleep.simps [of n kn] wakeup_def)
  next
    case (Threw msg x)
    then show ?thesis using usemacquire_not_Threw by blast
  qed
qed

lemma sint_succ_nonpos: "sint (x :: 32 word) < 0 \<Longrightarrow> sint (x + 1) \<le> 0"
proof -
  assume a: "sint x < 0"
  have lo: "- (2 ^ 31) \<le> sint x" using sint_ge [of x] by simp
  have "sint (x + 1) = signed_take_bit 31 (sint x + 1)"
    by (simp add: sint_word_ariths)
  also have "\<dots> = sint x + 1"
    using a lo by (intro signed_take_bit_int_eq_self) auto
  finally show ?thesis using a by simp
qed

lemma notesleep_woken: "wakeup n \<noteq> 0 \<Longrightarrow> notesleep n kn = Returned (n, kn)"
  by (simp add: notesleep.simps [of n kn])

lemma notewakeup_sets: "wakeup (fst (notewakeup st)) = 1"
  by (cases st) (simp add: notewakeup_def wakeup_def Let_def split_beta)

lemma parked_sleeper_released:
  assumes "wakeup n1 = 0" "sint (u (note_sema n1)) < 0" "semval kn1 (k (note_sema n1)) = 0"
    "k (note_sema n1) \<noteq> 0"
  shows "notesleep_resume n1 kn1 = Parked (n1, kn1)"
    and "\<exists>kn3. notesleep_resume (fst (notewakeup (n1, kn1))) (snd (notewakeup (n1, kn1)))
            = Returned (fst (notewakeup (n1, kn1)), kn3)"
proof -
  show "notesleep_resume n1 kn1 = Parked (n1, kn1)"
    using assms by (simp add: notesleep_resume_def sem_wait_resume_def)
  let ?st = "notewakeup (n1, kn1)"
  have le: "sint (u (note_sema n1) + 1) \<le> 0" using assms(2) by (rule sint_succ_nonpos)
  have ksame: "k (note_sema (fst ?st)) = k (note_sema n1)"
    using assms(4) le
    by (simp add: notewakeup_def usemrelease_def xadd_def Let_def split_beta)
  have posted: "0 < semval (snd ?st) (k (note_sema n1))"
    using assms(4) le
    by (simp add: notewakeup_def usemrelease_def xadd_def Let_def split_beta sem_post_def)
  have w: "wakeup (fst ?st) \<noteq> 0" by (simp add: notewakeup_sets)
  show "\<exists>kn3. notesleep_resume (fst ?st) (snd ?st) = Returned (fst ?st, kn3)"
    using ksame posted notesleep_woken [OF w]
    by (simp add: notesleep_resume_def sem_wait_resume_def)
qed

text \<open>
  C2. A note is a one-shot event. After \<open>noteclear\<close>, \<open>notesleep\<close> does not return: it
  ends parked in the kernel, with the note still not woken, and stays parked if resumed
  without a post; the \<open>notewakeup\<close> that follows releases it, and the resumed sleeper
  returns. After one or more \<open>notewakeup\<close>s the note is woken, and on a woken note
  \<open>notesleep\<close> returns at once, leaving note and kernel as they were (so every later
  sleep does the same) until \<open>noteclear\<close> makes the first part apply again. The kernel
  is assumed never to issue the handle 0, which thread.c reads as "no semaphore".
\<close>

theorem note_one_shot:
  "(nextsem kn \<noteq> 0 \<longrightarrow>
     (\<exists>n1 kn1. notesleep (noteclear n) kn = Parked (n1, kn1) \<and> wakeup n1 = 0
        \<and> notesleep_resume n1 kn1 = Parked (n1, kn1)
        \<and> (\<exists>kn3. notesleep_resume (fst (notewakeup (n1, kn1))) (snd (notewakeup (n1, kn1)))
               = Returned (fst (notewakeup (n1, kn1)), kn3))))
   \<and> wakeup (fst ((notewakeup ^^ Suc j) (n, kn))) = 1
   \<and> (wakeup n \<noteq> 0 \<longrightarrow> notesleep n kn = Returned (n, kn))"
proof (intro conjI impI)
  assume nz: "nextsem kn \<noteq> 0"
  have "wakeup (noteclear n) = 0" by (simp add: noteclear_def wakeup_def)
  from notesleep_blocks [OF this, of kn] nz
  obtain n1 kn1 where p: "notesleep (noteclear n) kn = Parked (n1, kn1)" "wakeup n1 = 0"
    "sint (u (note_sema n1)) < 0" "semval kn1 (k (note_sema n1)) = 0" "k (note_sema n1) \<noteq> 0"
    by auto
  from parked_sleeper_released [OF p(2-5)] p(1,2)
  show "\<exists>n1 kn1. notesleep (noteclear n) kn = Parked (n1, kn1) \<and> wakeup n1 = 0
        \<and> notesleep_resume n1 kn1 = Parked (n1, kn1)
        \<and> (\<exists>kn3. notesleep_resume (fst (notewakeup (n1, kn1))) (snd (notewakeup (n1, kn1)))
               = Returned (fst (notewakeup (n1, kn1)), kn3))"
    by blast
next
  show "wakeup (fst ((notewakeup ^^ Suc j) (n, kn))) = 1"
    by (simp add: notewakeup_sets)
next
  assume "wakeup n \<noteq> 0"
  then show "notesleep n kn = Returned (n, kn)" by (rule notesleep_woken)
qed

theorem note_one_shot_witness:
  "nextsem kern0 \<noteq> 0
   \<and> (\<exists>n1 kn1. notesleep (noteclear note0) kern0 = Parked (n1, kn1) \<and> wakeup n1 = 0
        \<and> (\<exists>kn3. notesleep_resume (fst (notewakeup (n1, kn1))) (snd (notewakeup (n1, kn1)))
               = Returned (fst (notewakeup (n1, kn1)), kn3)))
   \<and> wakeup note0 \<noteq> 0
   \<and> notesleep note0 kern0 = Returned (note0, kern0)"
  using note_one_shot [of kern0 note0 0]
  by (auto simp add: kern0_def note0_def wakeup_def)

section \<open>Properties: channels\<close>

lemma closed_no_senders: "reachable ch \<Longrightarrow> closed ch \<Longrightarrow> sendq ch = []"
proof (induction rule: reachable.induct)
  case (made capacity)
  then show ?case by (simp add: chan_make_def)
next
  case (sent ch me v ch' woken)
  then show ?case by (auto simp: chan_send_def split: if_splits list.splits)
next
  case (send_blocked ch me v ch')
  then show ?case by (auto simp: chan_send_def split: if_splits list.splits)
next
  case (received ch me res ch' woken)
  then show ?case by (auto simp: chan_recv_def split: if_splits list.splits)
next
  case (recv_blocked ch me ch')
  then show ?case by (auto simp: chan_recv_def split: if_splits list.splits)
next
  case (closed ch ch' woken)
  then show ?case by (auto simp: chan_close_def split: if_splits)
qed

text \<open>
  C5. On every channel a program can hold: once the channel is closed and its buffer is
  empty, a receive returns the zero value with the ok indicator false, does not block
  and leaves the channel as it was (so every later receive does the same); a close
  releases every receiver that was blocked on the channel, each with the zero value and
  ok false; and a send on a closed channel is a fatal error.
\<close>

theorem chan_close_semantics:
  "(reachable ch \<longrightarrow> closed ch \<longrightarrow> buf ch = [] \<longrightarrow>
      chan_recv ch me = RecvDone (0, False) ch [])
   \<and> (chan_close ch = CloseDone ch' woken \<longrightarrow>
        closed ch' \<and> recvq ch' = [] \<and> woken = map (\<lambda>r. (r, 0, False)) (recvq ch)
        \<and> (\<forall>r \<in> set (recvq ch). (r, 0, False) \<in> set woken))
   \<and> (closed ch \<longrightarrow> chan_send ch me v = SendFatal ''send on closed channel'')"
proof (intro conjI impI)
  assume "reachable ch" "closed ch" "buf ch = []"
  then show "chan_recv ch me = RecvDone (0, False) ch []"
    using closed_no_senders [of ch] by (simp add: chan_recv_def)
next
  assume c: "chan_close ch = CloseDone ch' woken"
  then show "closed ch'" by (auto simp: chan_close_def split: if_splits)
  from c show "recvq ch' = []" by (auto simp: chan_close_def split: if_splits)
  from c show w: "woken = map (\<lambda>r. (r, 0, False)) (recvq ch)"
    by (auto simp: chan_close_def split: if_splits)
  then show "\<forall>r \<in> set (recvq ch). (r, 0, False) \<in> set woken" by auto
next
  assume "closed ch"
  then show "chan_send ch me v = SendFatal ''send on closed channel''"
    by (simp add: chan_send_def)
qed

lemma chan_waiting_reachable: "reachable chan_waiting"
proof -
  have "chan_recv (chan_make 0 :: int chan) 7 = RecvBlocked chan_waiting"
    by (simp add: chan_recv_def chan_make_def chan_waiting_def)
  with reachable.made [of 0] show ?thesis by (rule reachable.recv_blocked)
qed

lemma chan_shut_reachable: "reachable chan_shut"
proof -
  have "chan_close chan_waiting = CloseDone chan_shut [(7, 0, False)]"
    by (simp add: chan_close_def chan_waiting_def chan_shut_def)
  with chan_waiting_reachable show ?thesis by (rule reachable.closed)
qed

theorem chan_close_semantics_witness:
  "reachable chan_shut \<and> closed chan_shut \<and> buf chan_shut = []
   \<and> chan_recv chan_shut 8 = RecvDone (0, False) chan_shut []
   \<and> chan_close chan_waiting = CloseDone chan_shut [(7, 0, False)]
   \<and> recvq chan_waiting = [7] \<and> recvq chan_shut = []
   \<and> chan_send chan_shut 8 5 = SendFatal ''send on closed channel''"
proof -
  have c: "chan_close chan_waiting = CloseDone chan_shut [(7, 0, False)]"
    by (simp add: chan_close_def chan_waiting_def chan_shut_def)
  have s: "closed chan_shut" "buf chan_shut = []" by (simp_all add: chan_shut_def)
  have w: "recvq chan_waiting = [7]" by (simp add: chan_waiting_def)
  from chan_close_semantics [of chan_shut 8 chan_shut "[]" 5] chan_shut_reachable s
  have r: "chan_recv chan_shut 8 = RecvDone (0, False) chan_shut []"
    and f: "chan_send chan_shut 8 5 = SendFatal ''send on closed channel''" by simp_all
  from chan_close_semantics [of chan_waiting 8 chan_shut "[(7, 0, False)]" 5] c
  have e: "recvq chan_shut = []" by simp
  from chan_shut_reachable s r c w e f show ?thesis by simp
qed

section \<open>Properties: time.Sleep (pkg/time/sleep.go)\<close>

lemma sleep_loop_deadline:
  "sleep_loop endt t env = Some (Ret t' None) \<Longrightarrow> endt \<le>s t'"
proof (induction env arbitrary: t)
  case Nil
  then show ?case
    by (simp add: sleep_loop.simps [of endt t] word_sless_alt word_sle_eq split: if_splits)
next
  case (Cons a env)
  show ?case
  proof (cases "t <s endt")
    case True
    with Cons.prems Cons.IH show ?thesis
      by (cases a) (auto simp: sleep_loop.simps [of endt t])
  next
    case False
    with Cons.prems show ?thesis
      by (simp add: sleep_loop.simps [of endt t] word_sless_alt word_sle_eq)
  qed
qed

lemma sleep_loop_returns:
  "\<forall>x \<in> set pre. \<exists>r. x = Now r \<Longrightarrow> endt \<le>s r \<Longrightarrow>
     \<exists>t'. sleep_loop endt t (pre @ Now r # post) = Some (Ret t' None)"
proof (induction pre arbitrary: t)
  case Nil
  show ?case
  proof (cases "t <s endt")
    case True
    with Nil show ?thesis
      by (simp add: sleep_loop.simps [of endt t] sleep_loop.simps [of endt r]
          word_sless_alt word_sle_eq)
  next
    case False
    then show ?thesis by (simp add: sleep_loop.simps [of endt t])
  qed
next
  case (Cons a pre)
  from Cons.prems obtain r0 where a: "a = Now r0" by auto
  show ?case
  proof (cases "t <s endt")
    case True
    from Cons.IH [of r0] Cons.prems
    obtain t' where "sleep_loop endt r0 (pre @ Now r # post) = Some (Ret t' None)" by auto
    with True a show ?thesis by (simp add: sleep_loop.simps [of endt t])
  next
    case False
    then show ?thesis by (simp add: sleep_loop.simps [of endt t])
  qed
qed

text \<open>When \<open>t + ns\<close> stays inside int64, a return without error is at or after the deadline,
  and the loop does return once the clock has reached the deadline.\<close>

lemma sleep_at_least_without_overflow:
  assumes "sint t + sint ns < 2 ^ 63" "- (2 ^ 63) \<le> sint t + sint ns"
    and "sleep t ns env = Some (Ret t' None)"
  shows "sint t + sint ns \<le> sint t'"
proof -
  have "sint (t + ns) = signed_take_bit 63 (sint t + sint ns)"
    by (simp add: sint_word_ariths)
  also have "\<dots> = sint t + sint ns"
    using assms(1,2) by (intro signed_take_bit_int_eq_self) auto
  finally have "sint (t + ns) = sint t + sint ns" .
  moreover from assms(3) have "t + ns \<le>s t'"
    unfolding sleep_def by (rule sleep_loop_deadline)
  ultimately show ?thesis by (simp add: word_sle_eq)
qed

text \<open>
  C7 fails where \<open>t + ns\<close> overflows int64. Called at a present-day clock reading with
  the largest duration, \<open>sleep\<close> computes a deadline that has wrapped to a negative
  number, does not enter its loop (the system is never asked to sleep: the model needs
  no answer from it) and returns the start time at once, although the time of the call
  plus the duration lies far beyond it.
\<close>

theorem sleep_overflow_returns_at_once:
  "sleep 1300000000000000000 0x7FFFFFFFFFFFFFFF ([] :: unit tick list)
     = Some (Ret 1300000000000000000 None)
   \<and> sint (1300000000000000000 :: 64 word) < sint (1300000000000000000 :: 64 word) + sint (0x7FFFFFFFFFFFFFFF :: 64 word)"
  by (simp add: sleep_def sleep_loop.simps word_sless_alt)

section \<open>Properties: the fan-in test (testsuit/peter.go)\<close>

lemma spawned_unfold:
  "spawned = map ready [1, 2, 3, 4, 5, 6, 7, 8, 9, 10]"
  by (simp add: spawned_def total_def upt_conv_Cons)

text \<open>
  C6 as stated fails: the tasks do not send their index. Every task sends 1, so the
  values received are ten 1s, which add up to 10 and not to 55.
\<close>

theorem peter_sum_counterexample:
  "sum_list main_received \<noteq> 55 \<and> main_received \<noteq> [1, 2, 3, 4, 5, 6, 7, 8, 9, 10]"
  by (simp add: main_received_def spawned_unfold ready_def total_def)

text \<open>
  C6, amended. \<open>main\<close> starts 10 tasks \<open>ready(1)\<close>, ..., \<open>ready(10)\<close>; each sleeps for its
  index in seconds, prints its index and sends the constant 1 on the one shared
  unbuffered channel; \<open>main\<close> receives exactly 10 values, each of them 1 (sum 10). The
  indices 1..10, which add up to 55, are what the tasks print.
\<close>

theorem peter_ten_ready_signals:
  "length spawned = 10
   \<and> map sent_values spawned = replicate 10 [1]
   \<and> main_received = replicate 10 1
   \<and> length main_received = 10
   \<and> sum_list main_received = 10
   \<and> main_printed = [1, 2, 3, 4, 5, 6, 7, 8, 9, 10]
   \<and> sum_list main_printed = 55"
  by (simp add: main_received_def main_printed_def spawned_unfold ready_def total_def
      numeral_eq_Suc)

section \<open>Properties: memory from the system (runtime/ucoresmp/mem.c)\<close>

lemma clear_bytes_other: "x \<notin> set as \<Longrightarrow> clear_bytes b as x = b x"
  by (induction as arbitrary: b) auto

lemma clear_bytes_zero: "x \<in> set as \<Longrightarrow> clear_bytes b as x = 0"
proof (induction as arbitrary: b)
  case Nil
  then show ?case by simp
next
  case (Cons a as)
  show ?case
  proof (cases "x \<in> set as")
    case True
    then show ?thesis using Cons.IH by simp
  next
    case False
    with Cons.prems have "x = a" by simp
    with False show ?thesis by (simp add: clear_bytes_other)
  qed
qed

lemma region_nth: "i < n \<Longrightarrow> p + of_nat i \<in> set (region p n)"
proof (induction n arbitrary: p i)
  case 0
  then show ?case by simp
next
  case (Suc n)
  show ?case
  proof (cases i)
    case 0
    then show ?thesis by simp
  next
    case (Suc j)
    with Suc.prems have "j < n" by simp
    from Suc.IH [OF this, of "p + 1"] have "p + 1 + of_nat j \<in> set (region (p + 1) n)" .
    moreover have "p + of_nat i = p + 1 + of_nat j" using Suc by simp
    ultimately have "p + of_nat i \<in> set (region (p + 1) n)" by (simp add: add.assoc)
    then show ?thesis by simp
  qed
qed

lemma memclr_zero:
  "memclr p n mem = Ok mem' \<Longrightarrow> i < unat n \<Longrightarrow> bytes mem' (p + of_nat i) = 0"
  by (auto simp: memclr_def clear_bytes_zero region_nth split: if_splits)

lemma mmap_maps:
  "list_all (mapped (snd (mmap p n (Some a) mem))) (region a (unat n))"
  by (simp add: mmap_def list_all_iff)

lemma SysAlloc_refused:
  "n \<noteq> 0 \<Longrightarrow> \<not> mapped mem 0 \<Longrightarrow> SysAlloc n None mem = Fault"
proof -
  assume "n \<noteq> 0" "\<not> mapped mem 0"
  then obtain j where "unat n = Suc j" by (cases "unat n") (auto simp: unat_eq_0)
  with \<open>\<not> mapped mem 0\<close> show ?thesis
    by (simp add: SysAlloc_def mmap_def memclr_def Let_def)
qed

text \<open>
  C8. Whenever the kernel grants the mapping, \<open>runtime\<cdot>SysAlloc(n)\<close> returns the granted
  block, all \<open>n\<close> bytes of it mapped and cleared to zero, whatever the memory held
  before. The allocator entry clears the block it hands out unless the caller passed
  \<open>no_zero\<close>.
\<close>

theorem SysAlloc_zeroed:
  "(\<exists>mem'. SysAlloc n (Some a) mem = Ok (a, mem')
       \<and> (\<forall>i < unat n. bytes mem' (a + of_nat i) = 0)
       \<and> (\<forall>i < unat n. mapped mem' (a + of_nat i)))
   \<and> (\<not> no_zero flags \<longrightarrow> list_all (mapped mem) (region p (unat n)) \<longrightarrow>
        (\<exists>mem'. alloc n flags p mem = Ok (p, mem')
           \<and> (\<forall>i < unat n. bytes mem' (p + of_nat i) = 0)))"
proof (intro conjI impI)
  let ?m1 = "mem\<lparr>sys := sys mem + n\<rparr>"
  let ?m2 = "snd (mmap 0 n (Some a) ?m1)"
  have ok: "list_all (mapped ?m2) (region a (unat n))" by (rule mmap_maps)
  then obtain mem3 where m3: "memclr a n ?m2 = Ok mem3"
    by (simp add: memclr_def)
  have p1: "fst (mmap 0 n (Some a) ?m1) = a" by (simp add: mmap_def)
  have res: "SysAlloc n (Some a) mem = Ok (a, mem3)"
    using m3 p1 by (simp add: SysAlloc_def Let_def split_beta)
  have z: "\<forall>i < unat n. bytes mem3 (a + of_nat i) = 0"
    using memclr_zero [OF m3] by blast
  have "mapped mem3 = mapped ?m2" using m3 by (auto simp: memclr_def split: if_splits)
  then have mp: "\<forall>i < unat n. mapped mem3 (a + of_nat i)"
    using ok region_nth [of _ "unat n" a] by (auto simp: list_all_iff)
  from res z mp
  show "\<exists>mem'. SysAlloc n (Some a) mem = Ok (a, mem')
       \<and> (\<forall>i < unat n. bytes mem' (a + of_nat i) = 0)
       \<and> (\<forall>i < unat n. mapped mem' (a + of_nat i))"
    by blast
next
  assume "\<not> no_zero flags" "list_all (mapped mem) (region p (unat n))"
  then obtain mem1 where m: "memclr p n mem = Ok mem1" and a: "alloc n flags p mem = Ok (p, mem1)"
    by (simp add: alloc_def memclr_def)
  from memclr_zero [OF m] a
  show "\<exists>mem'. alloc n flags p mem = Ok (p, mem') \<and> (\<forall>i < unat n. bytes mem' (p + of_nat i) = 0)"
    by blast
qed

theorem SysAlloc_zeroed_witness:
  "(\<exists>mem'. SysAlloc 2 (Some 4096) mem_dirty = Ok (4096, mem')
       \<and> bytes mem' 4096 = 0 \<and> bytes mem' 4097 = 0 \<and> mapped mem' 4096 \<and> mapped mem' 4097)
   \<and> bytes mem_dirty 4096 = 255
   \<and> \<not> no_zero flags_plain
   \<and> list_all (mapped mem_dirty) (region 8192 (unat (2 :: 64 word)))
   \<and> (\<exists>mem'. alloc 2 flags_plain 8192 mem_dirty = Ok (8192, mem')
         \<and> bytes mem' 8192 = 0 \<and> bytes mem' 8193 = 0)"
proof -
  have h1: "\<not> no_zero flags_plain" by (simp add: flags_plain_def)
  have u2: "unat (2 :: 64 word) = Suc (Suc 0)" by simp
  have h2: "list_all (mapped mem_dirty) (region 8192 (unat (2 :: 64 word)))"
    unfolding u2 by (simp add: mem_dirty_def)
  note t = SysAlloc_zeroed [of 2 4096 mem_dirty flags_plain 8192]
  from t obtain m1 where a1: "SysAlloc 2 (Some 4096) mem_dirty = Ok (4096, m1)"
    and z1: "\<forall>i < unat (2 :: 64 word). bytes m1 (4096 + of_nat i) = 0"
    and p1: "\<forall>i < unat (2 :: 64 word). mapped m1 (4096 + of_nat i)"
    by blast
  have b1: "bytes m1 4096 = 0" "bytes m1 4097 = 0"
    using z1 [rule_format, of 0] z1 [rule_format, of 1] by simp_all
  have q1: "mapped m1 4096" "mapped m1 4097"
    using p1 [rule_format, of 0] p1 [rule_format, of 1] by simp_all
  from t h1 h2 obtain m2 where a2: "alloc 2 flags_plain 8192 mem_dirty = Ok (8192, m2)"
    and z2: "\<forall>i < unat (2 :: 64 word). bytes m2 (8192 + of_nat i) = 0"
    by blast
  have b2: "bytes m2 8192 = 0" "bytes m2 8193 = 0"
    using z2 [rule_format, of 0] z2 [rule_format, of 1] by simp_all
  have d: "bytes mem_dirty 4096 = 255" by (simp add: mem_dirty_def)
  from a1 b1 q1 a2 b2 h1 h2 d show ?thesis by blast
qed

section \<open>Properties: the finalizer table (runtime/mfinal.c)\<close>

lemma idx_less: "0 < m \<Longrightarrow> idx m h j < m"
  by (simp add: idx_def)

lemma next_slot_idx: "0 < m \<Longrightarrow> next_slot (idx m h j) (int m) = idx m h (Suc j)"
proof -
  assume m: "0 < m"
  have "(h + Suc j) mod m = (if Suc ((h + j) mod m) = m then 0 else Suc ((h + j) mod m))"
    using mod_Suc [of "h + j" m] by simp
  then show ?thesis
    by (simp add: next_slot_def idx_def)
qed

lemma idx_start: "h < m \<Longrightarrow> idx m h 0 = h"
  by (simp add: idx_def)

lemma idx_inj: "0 < m \<Longrightarrow> j' < j \<Longrightarrow> j < m \<Longrightarrow> idx m h j' \<noteq> idx m h j"
proof
  assume m: "0 < m" and lt: "j' < j" "j < m" and eq: "idx m h j' = idx m h j"
  have "h + j' \<le> h + j" using lt by simp
  from mod_eq_dvd_iff_nat [OF this, of m] eq have "m dvd (h + j) - (h + j')"
    by (simp add: idx_def)
  then have "m dvd j - j'" by simp
  moreover have "0 < j - j'" "j - j' < m" using lt by simp_all
  ultimately show False by (meson dvd_imp_le not_less)
qed

lemma idx_surj: "i < m \<Longrightarrow> \<exists>j < m. idx m h j = i"
proof -
  assume i: "i < m"
  let ?a = "h mod m"
  have a: "?a < m" using i by simp
  show ?thesis
  proof (cases "?a \<le> i")
    case True
    have "(h + (i - ?a)) mod m = (?a + (i - ?a)) mod m" by (simp add: mod_add_left_eq)
    also have "\<dots> = i" using True i by simp
    finally have "idx m h (i - ?a) = i" by (simp add: idx_def)
    moreover have "i - ?a < m" using i by simp
    ultimately show ?thesis by blast
  next
    case False
    have "(h + (i + m - ?a)) mod m = (?a + (i + m - ?a)) mod m" by (simp add: mod_add_left_eq)
    also have "?a + (i + m - ?a) = i + m" using a by simp
    also have "(i + m) mod m = i" using i by simp
    finally have "idx m h (i + m - ?a) = i" by (simp add: idx_def)
    moreover have "i + m - ?a < m" using False i by simp
    ultimately show ?thesis by blast
  qed
qed

lemma first_stop:
  assumes "i < m" "Q (ks ! i)"
  shows "\<exists>d < m. Q (ks ! idx m h d) \<and> (\<forall>d' < d. \<not> Q (ks ! idx m h d'))"
proof -
  from idx_surj [OF assms(1), of h] obtain j where j: "j < m" "idx m h j = i" by blast
  with assms(2) have "\<exists>d. d < m \<and> Q (ks ! idx m h d)" by blast
  then obtain d where d: "d < m \<and> Q (ks ! idx m h d)"
    and least: "\<forall>d' < d. \<not> (d' < m \<and> Q (ks ! idx m h d'))"
    using exists_least_iff [of "\<lambda>d. d < m \<and> Q (ks ! idx m h d)"] by blast
  from d least have "\<forall>d' < d. \<not> Q (ks ! idx m h d')" by auto
  with d show ?thesis by blast
qed

lemma addfintab_scan_hit:
  assumes "0 < m"
    and "\<not> live (ks ! idx m h (j0 + d))"
    and "\<forall>d' < d. live (ks ! idx m h (j0 + d'))"
    and "d < r"
  shows "addfintab_scan ks (int m) (idx m h j0) r
           = Some (ks ! idx m h (j0 + d) = 0, idx m h (j0 + d))"
  using assms(2-4)
proof (induction d arbitrary: j0 r)
  case 0
  then obtain r' where "r = Suc r'" by (cases r) auto
  with 0 show ?case by (auto simp: live_def)
next
  case (Suc d)
  then obtain r' where r: "r = Suc r'" by (cases r) auto
  from Suc.prems(2) have l0: "live (ks ! idx m h j0)" by (metis add.right_neutral zero_less_Suc)
  have "\<forall>d' < d. live (ks ! idx m h (Suc j0 + d'))"
    using Suc.prems(2) by (metis Suc_less_eq add_Suc_shift)
  from Suc.IH [of "Suc j0" r', OF _ this] Suc.prems r
  have "addfintab_scan ks (int m) (idx m h (Suc j0)) r'
          = Some (ks ! idx m h (j0 + Suc d) = 0, idx m h (j0 + Suc d))"
    by simp
  with l0 r show ?case
    by (simp add: live_def next_slot_idx [OF assms(1)] del: add_Suc_right)
qed

lemma lookfintab_scan_hit:
  assumes "0 < m"
    and "ks ! idx m h (j0 + d) = 0 \<or> ks ! idx m h (j0 + d) = p"
    and "\<forall>d' < d. ks ! idx m h (j0 + d') \<noteq> 0 \<and> ks ! idx m h (j0 + d') \<noteq> p"
    and "d < r"
  shows "lookfintab_scan ks p (int m) (idx m h j0) r
           = (if ks ! idx m h (j0 + d) = 0 then Some None else Some (Some (idx m h (j0 + d))))"
  using assms(2-4)
proof (induction d arbitrary: j0 r)
  case 0
  then obtain r' where "r = Suc r'" by (cases r) auto
  with 0 show ?case by auto
next
  case (Suc d)
  then obtain r' where r: "r = Suc r'" by (cases r) auto
  from Suc.prems(2) have l0: "ks ! idx m h j0 \<noteq> 0 \<and> ks ! idx m h j0 \<noteq> p"
    by (metis add.right_neutral zero_less_Suc)
  have "\<forall>d' < d. ks ! idx m h (Suc j0 + d') \<noteq> 0 \<and> ks ! idx m h (Suc j0 + d') \<noteq> p"
    using Suc.prems(2) by (metis Suc_less_eq add_Suc_shift)
  from Suc.IH [of "Suc j0" r', OF _ this] Suc.prems r
  have "lookfintab_scan ks p (int m) (idx m h (Suc j0)) r'
          = (if ks ! idx m h (j0 + Suc d) = 0 then Some None
             else Some (Some (idx m h (j0 + Suc d))))"
    by simp
  with l0 r show ?case
    by (simp add: next_slot_idx [OF assms(1)] del: add_Suc_right)
qed

lemma lookfintab_scan_present:
  assumes "probe_inv ks" "i < length ks" "live (ks ! i)"
  shows "lookfintab_scan ks (ks ! i) (int (length ks)) (unat (ks ! i) mod length ks) (length ks)
           = Some (Some i)"
proof -
  let ?m = "length ks" and ?p = "ks ! i"
  let ?h = "unat ?p mod ?m"
  have m: "0 < ?m" using assms(2) by (cases ks) auto
  from assms have "reach ks ?p i" by (simp add: probe_inv_def)
  then obtain j where j: "j < ?m" "idx ?m ?h j = i"
    and path: "\<forall>j' < j. ks ! idx ?m ?h j' \<noteq> 0"
    by (auto simp: reach_def)
  have other: "\<forall>j' < j. ks ! idx ?m ?h j' \<noteq> ?p"
  proof (intro allI impI notI)
    fix j' assume lt: "j' < j" and eq: "ks ! idx ?m ?h j' = ?p"
    have "idx ?m ?h j' < ?m" using m by (rule idx_less)
    with assms eq have "i = idx ?m ?h j'" by (simp add: probe_inv_def)
    with j idx_inj [OF m lt j(1), of ?h] show False by simp
  qed
  have "lookfintab_scan ks ?p (int ?m) (idx ?m ?h 0) ?m
          = (if ks ! idx ?m ?h (0 + j) = 0 then Some None else Some (Some (idx ?m ?h (0 + j))))"
    using path other j by (intro lookfintab_scan_hit [OF m]) auto
  moreover have "idx ?m ?h 0 = ?h" using m by (simp add: idx_def)
  moreover have "ks ! i \<noteq> 0" using assms(3) by (simp add: live_def)
  ultimately show ?thesis using j by simp
qed

lemma lookfintab_scan_absent:
  assumes "0 \<in> set ks" "p \<notin> set ks \<or> p = 0"
  shows "lookfintab_scan ks p (int (length ks)) (unat p mod length ks) (length ks) = Some None"
proof -
  let ?m = "length ks"
  let ?h = "unat p mod ?m"
  from assms(1) obtain i where i: "i < ?m" "ks ! i = 0" by (auto simp: in_set_conv_nth)
  then have m: "0 < ?m" by (cases ks) auto
  from first_stop [of i ?m "\<lambda>x. x = 0 \<or> x = p" ks ?h] i
  obtain d where d: "d < ?m" "ks ! idx ?m ?h d = 0 \<or> ks ! idx ?m ?h d = p"
    and before: "\<forall>d' < d. \<not> (ks ! idx ?m ?h d' = 0 \<or> ks ! idx ?m ?h d' = p)"
    by blast
  have "ks ! idx ?m ?h d \<in> set ks" using idx_less [OF m] by simp
  with assms(2) d have z: "ks ! idx ?m ?h d = 0" by auto
  have "lookfintab_scan ks p (int ?m) (idx ?m ?h 0) ?m
          = (if ks ! idx ?m ?h (0 + d) = 0 then Some None else Some (Some (idx ?m ?h (0 + d))))"
    using d before by (intro lookfintab_scan_hit [OF m]) auto
  moreover have "idx ?m ?h 0 = ?h" using m by (simp add: idx_def)
  ultimately show ?thesis using z by simp
qed

lemma addfintab_scan_room:
  assumes "0 \<in> set ks"
  shows "\<exists>d < length ks.
           addfintab_scan ks (int (length ks)) (unat p mod length ks) (length ks)
             = Some (ks ! idx (length ks) (unat p mod length ks) d = 0,
                     idx (length ks) (unat p mod length ks) d)
           \<and> \<not> live (ks ! idx (length ks) (unat p mod length ks) d)
           \<and> (\<forall>d' < d. live (ks ! idx (length ks) (unat p mod length ks) d'))"
proof -
  let ?m = "length ks"
  let ?h = "unat p mod ?m"
  from assms(1) obtain i where i: "i < ?m" "ks ! i = 0" by (auto simp: in_set_conv_nth)
  then have m: "0 < ?m" by (cases ks) auto
  from first_stop [of i ?m "\<lambda>x. \<not> live x" ks ?h] i
  obtain d where d: "d < ?m" "\<not> live (ks ! idx ?m ?h d)"
    and before: "\<forall>d' < d. live (ks ! idx ?m ?h d')"
    by (auto simp: live_def)
  have "addfintab_scan ks (int ?m) (idx ?m ?h 0) ?m
          = Some (ks ! idx ?m ?h (0 + d) = 0, idx ?m ?h (0 + d))"
    using d before by (intro addfintab_scan_hit [OF m]) auto
  moreover have "idx ?m ?h 0 = ?h" using m by (simp add: idx_def)
  ultimately show ?thesis using d before by auto
qed

lemma probe_inv_insert:
  assumes inv: "probe_inv ks" and p: "live p" "p \<notin> set ks"
    and d: "d < length ks" "\<forall>d' < d. live (ks ! idx (length ks) (unat p mod length ks) d')"
  shows "probe_inv (ks[idx (length ks) (unat p mod length ks) d := p])"
proof -
  let ?m = "length ks"
  let ?i0 = "idx ?m (unat p mod ?m) d"
  let ?ks' = "ks[?i0 := p]"
  have m: "0 < ?m" using d(1) by (cases ks) auto
  have i0: "?i0 < ?m" using m by (rule idx_less)
  have nz: "\<And>x. x < ?m \<Longrightarrow> ks ! x \<noteq> 0 \<Longrightarrow> ?ks' ! x \<noteq> 0"
    using p(1) i0 by (simp add: nth_list_update live_def)
  have r: "\<forall>i < length ?ks'. live (?ks' ! i) \<longrightarrow> reach ?ks' (?ks' ! i) i"
  proof (intro allI impI)
    fix i assume i: "i < length ?ks'" and l: "live (?ks' ! i)"
    show "reach ?ks' (?ks' ! i) i"
    proof (cases "i = ?i0")
      case True
      have "\<forall>j' < d. ?ks' ! idx ?m (unat p mod ?m) j' \<noteq> 0"
        using d(2) nz idx_less [OF m] by (auto simp: live_def)
      with True i0 d(1) show ?thesis by (auto simp: reach_def)
    next
      case False
      with i l have old: "live (ks ! i)" "?ks' ! i = ks ! i" "i < ?m" by simp_all
      with inv have "reach ks (ks ! i) i" by (simp add: probe_inv_def)
      then obtain j where j: "j < ?m" "idx ?m (unat (ks ! i) mod ?m) j = i"
        and path: "\<forall>j' < j. ks ! idx ?m (unat (ks ! i) mod ?m) j' \<noteq> 0"
        by (auto simp: reach_def)
      from path have "\<forall>j' < j. ?ks' ! idx ?m (unat (ks ! i) mod ?m) j' \<noteq> 0"
        using nz idx_less [OF m] by blast
      with j old show ?thesis by (auto simp: reach_def)
    qed
  qed
  have u: "\<forall>i < length ?ks'. \<forall>j < length ?ks'. live (?ks' ! i) \<longrightarrow> ?ks' ! i = ?ks' ! j \<longrightarrow> i = j"
  proof (intro allI impI)
    fix i j assume i: "i < length ?ks'" and j: "j < length ?ks'"
      and l: "live (?ks' ! i)" and eq: "?ks' ! i = ?ks' ! j"
    have notp: "\<And>x. x < ?m \<Longrightarrow> ks ! x \<noteq> p" using p(2) by (metis nth_mem)
    show "i = j"
    proof (cases "i = ?i0")
      case True
      show ?thesis
      proof (rule ccontr)
        assume "i \<noteq> j"
        with True i j eq i0 have "ks ! j = p" by simp
        with notp j show False by simp
      qed
    next
      case False
      show ?thesis
      proof (cases "j = ?i0")
        case True
        with False i j eq i0 have "ks ! i = p" by simp
        with notp i show ?thesis by simp
      next
        case False
        with \<open>i \<noteq> ?i0\<close> i j l eq inv show ?thesis by (simp add: probe_inv_def)
      qed
    qed
  qed
  from r u show ?thesis by (simp add: probe_inv_def)
qed

lemma probe_inv_delete:
  assumes inv: "probe_inv ks" and i: "i < length ks"
  shows "probe_inv (ks[i := - 1])"
proof -
  let ?m = "length ks"
  let ?ks' = "ks[i := - 1]"
  have m: "0 < ?m" using i by (cases ks) auto
  have nz: "\<And>x. x < ?m \<Longrightarrow> ks ! x \<noteq> 0 \<Longrightarrow> ?ks' ! x \<noteq> 0"
    using i by (simp add: nth_list_update)
  have dead: "\<not> live (?ks' ! i)" using i by (simp add: live_def)
  have r: "\<forall>a < length ?ks'. live (?ks' ! a) \<longrightarrow> reach ?ks' (?ks' ! a) a"
  proof (intro allI impI)
    fix a assume a: "a < length ?ks'" and l: "live (?ks' ! a)"
    with dead have ne: "a \<noteq> i" by auto
    with a l have old: "live (ks ! a)" "?ks' ! a = ks ! a" "a < ?m" by simp_all
    with inv have "reach ks (ks ! a) a" by (simp add: probe_inv_def)
    then obtain j where j: "j < ?m" "idx ?m (unat (ks ! a) mod ?m) j = a"
      and path: "\<forall>j' < j. ks ! idx ?m (unat (ks ! a) mod ?m) j' \<noteq> 0"
      by (auto simp: reach_def)
    from path have "\<forall>j' < j. ?ks' ! idx ?m (unat (ks ! a) mod ?m) j' \<noteq> 0"
      using nz idx_less [OF m] by blast
    with j old show "reach ?ks' (?ks' ! a) a" by (auto simp: reach_def)
  qed
  have u: "\<forall>a < length ?ks'. \<forall>b < length ?ks'. live (?ks' ! a) \<longrightarrow> ?ks' ! a = ?ks' ! b \<longrightarrow> a = b"
  proof (intro allI impI)
    fix a b assume a: "a < length ?ks'" and b: "b < length ?ks'"
      and l: "live (?ks' ! a)" and eq: "?ks' ! a = ?ks' ! b"
    from l dead have na: "a \<noteq> i" by auto
    from l eq dead have nb: "b \<noteq> i" by auto
    from na nb a b l eq inv show "a = b" by (simp add: probe_inv_def)
  qed
  from r u show ?thesis by (simp add: probe_inv_def)
qed

lemma int32_id: "- (2 ^ 31) \<le> x \<Longrightarrow> x < 2 ^ 31 \<Longrightarrow> int32 x = x"
  by (simp add: int32_def)

lemma quot_nonneg: "0 \<le> a \<Longrightarrow> 0 < b \<Longrightarrow> quot a b = a div b"
  by (cases "a = 0") (simp_all add: quot_def)

lemma count_list_update:
  "i < length xs \<Longrightarrow>
     int (count_list (xs[i := v]) x)
       = int (count_list xs x) - (if xs ! i = x then 1 else 0) + (if v = x then 1 else 0)"
proof (induction xs arbitrary: i)
  case Nil
  then show ?case by simp
next
  case (Cons a xs)
  show ?case
  proof (cases i)
    case 0
    then show ?thesis by simp
  next
    case (Suc j)
    with Cons.prems have "j < length xs" by simp
    from Cons.IH [OF this] Suc show ?thesis by (auto split: if_splits)
  qed
qed

lemma count_list_le_length: "count_list xs x \<le> length xs"
  by (induction xs) auto

lemma count_two_le_length:
  "x \<noteq> y \<Longrightarrow> count_list xs x + count_list xs y \<le> length xs"
  by (induction xs) auto

lemma live_count:
  "int (length (filter live ks))
     = int (length ks) - int (count_list ks 0) - int (count_list ks (- 1))"
  by (induction ks) (auto simp: live_def)

lemma tab_inv_bounds:
  assumes "tab_inv t"
  shows "0 \<le> ndead t" "ndead t \<le> nkey t" "nkey t \<le> max_tab t" "0 \<le> nkey t"
proof -
  let ?ks = "key_tab t"
  have "count_list ?ks 0 + count_list ?ks (- 1) \<le> length ?ks"
    by (rule count_two_le_length) simp
  then have a: "int (count_list ?ks 0) + int (count_list ?ks (- 1)) \<le> int (length ?ks)"
    by linarith
  have "count_list ?ks 0 \<le> length ?ks" by (rule count_list_le_length)
  then have b: "int (count_list ?ks 0) \<le> int (length ?ks)" by linarith
  from assms show "0 \<le> ndead t" by (simp add: tab_inv_def)
  from assms a show "ndead t \<le> nkey t" by (simp add: tab_inv_def)
  from assms show "nkey t \<le> max_tab t" by (simp add: tab_inv_def)
  from assms b show "0 \<le> nkey t" by (simp add: tab_inv_def)
qed

lemma tab_inv_room:
  assumes "tab_inv t" "nkey t < max_tab t"
  shows "0 \<in> set (key_tab t)"
proof -
  from assms have "0 < count_list (key_tab t) 0" by (simp add: tab_inv_def)
  then show ?thesis by (metis count_list_0_iff less_numeral_extra(3))
qed

lemma wf_room:
  assumes "wf_fintab t" "max_tab t \<noteq> 0"
  shows "0 \<in> set (key_tab t)"
proof -
  from assms have "27 \<le> max_tab t" by (simp add: wf_fintab_def)
  then have "max_tab t div 2 + max_tab t div 4 < max_tab t" by linarith
  with assms have "nkey t < max_tab t" by (simp add: wf_fintab_def)
  with assms show ?thesis by (simp add: wf_fintab_def tab_inv_room)
qed

lemma hash_slot_nat: "0 \<le> m \<Longrightarrow> hash_slot p m = unat p mod nat m"
  by (simp add: hash_slot_def)

subsection \<open>lookfintab on a well-formed table\<close>

lemma lookfintab_present:
  assumes "tab_inv t" "i < length (key_tab t)" "live (key_tab t ! i)"
  shows "lookfintab t (key_tab t ! i) del
           = Res (val_tab t ! i,
                  if del then t\<lparr>key_tab := (key_tab t)[i := - 1],
                               val_tab := (val_tab t)[i := None],
                               ndead := int32 (ndead t + 1)\<rparr>
                  else t)"
proof -
  from assms have len: "length (key_tab t) = nat (max_tab t)" and pos: "0 < max_tab t"
    by (auto simp: tab_inv_def)
  then have im: "int (length (key_tab t)) = max_tab t" by simp
  from assms have "probe_inv (key_tab t)" by (simp add: tab_inv_def)
  from lookfintab_scan_present [OF this assms(2,3)] im len
  have "lookfintab_scan (key_tab t) (key_tab t ! i) (max_tab t)
          (hash_slot (key_tab t ! i) (max_tab t)) (nat (max_tab t)) = Some (Some i)"
    by (simp add: hash_slot_def)
  with pos show ?thesis by (simp add: lookfintab_def Let_def)
qed

lemma lookfintab_absent:
  assumes "tab_inv t" "max_tab t = 0 \<or> 0 \<in> set (key_tab t)" "p \<notin> set (key_tab t) \<or> p = 0"
  shows "lookfintab t p del = Res (None, t)"
proof (cases "max_tab t = 0")
  case True
  then show ?thesis by (simp add: lookfintab_def)
next
  case False
  with assms have z: "0 \<in> set (key_tab t)" by simp
  from assms have len: "length (key_tab t) = nat (max_tab t)" and pos: "0 \<le> max_tab t"
    by (auto simp: tab_inv_def)
  then have im: "int (length (key_tab t)) = max_tab t" by simp
  from lookfintab_scan_absent [OF z assms(3)] im len
  have "lookfintab_scan (key_tab t) p (max_tab t) (hash_slot p (max_tab t)) (nat (max_tab t))
          = Some None"
    by (simp add: hash_slot_def)
  with False show ?thesis by (simp add: lookfintab_def)
qed

lemma tab_inv_delete:
  assumes "tab_inv t" "i < length (key_tab t)" "live (key_tab t ! i)"
  shows "tab_inv (t\<lparr>key_tab := (key_tab t)[i := - 1],
                     val_tab := (val_tab t)[i := None],
                     ndead := int32 (ndead t + 1)\<rparr>)"
proof -
  let ?ks = "key_tab t"
  from assms(3) have k: "?ks ! i \<noteq> 0" "?ks ! i \<noteq> - 1" by (simp_all add: live_def)
  have c0: "int (count_list (?ks[i := - 1]) 0) = int (count_list ?ks 0)"
    using count_list_update [OF assms(2), of "- 1" 0] k by simp
  have c1: "int (count_list (?ks[i := - 1]) (- 1)) = int (count_list ?ks (- 1)) + 1"
    using count_list_update [OF assms(2), of "- 1" "- 1"] k by simp
  have "count_list (?ks[i := - 1]) (- 1) \<le> length ?ks"
    using count_list_le_length [of "?ks[i := - 1]" "- 1"] by simp
  with c1 assms(1) have "ndead t + 1 \<le> max_tab t" by (simp add: tab_inv_def)
  with assms(1) tab_inv_bounds(1) [OF assms(1)] have w: "int32 (ndead t + 1) = ndead t + 1"
    by (intro int32_id) (auto simp: tab_inv_def)
  have p: "probe_inv (?ks[i := - 1])"
    using assms by (intro probe_inv_delete) (auto simp: tab_inv_def)
  have v: "\<forall>a < length ?ks. live (?ks[i := - 1] ! a) \<longrightarrow> (val_tab t)[i := None] ! a \<noteq> None"
  proof (intro allI impI)
    fix a assume a: "a < length ?ks" and l: "live (?ks[i := - 1] ! a)"
    with assms(2) have "a \<noteq> i" by (auto simp: live_def)
    with a l assms(1) show "(val_tab t)[i := None] ! a \<noteq> None" by (simp add: tab_inv_def)
  qed
  from assms(1) c0 c1 w p v show ?thesis by (simp add: tab_inv_def)
qed

subsection \<open>addfintab on a well-formed table\<close>

lemma addfintab_ok:
  assumes inv: "tab_inv t" and room: "0 \<in> set (key_tab t)"
    and p: "live p" "p \<notin> set (key_tab t)" and v: "v \<noteq> None"
  shows "\<exists>t' i0. addfintab t p v = Res t' \<and> tab_inv t' \<and> max_tab t' = max_tab t
           \<and> i0 < length (key_tab t) \<and> \<not> live (key_tab t ! i0)
           \<and> key_tab t' = (key_tab t)[i0 := p] \<and> val_tab t' = (val_tab t)[i0 := v]
           \<and> nkey t' - ndead t' = nkey t - ndead t + 1
           \<and> nkey t' \<le> nkey t + 1
           \<and> ndead t' \<le> ndead t"
proof -
  let ?ks = "key_tab t" and ?vs = "val_tab t"
  let ?m = "length ?ks"
  let ?h = "unat p mod ?m"
  from inv have len: "?m = nat (max_tab t)" "length ?vs = nat (max_tab t)"
    and mx: "0 \<le> max_tab t" "max_tab t < 2 ^ 31"
    by (auto simp: tab_inv_def)
  from room have m: "0 < ?m" by (cases ?ks) auto
  with len have pos: "max_tab t \<noteq> 0" by auto
  from len mx have im: "int ?m = max_tab t" by simp
  from addfintab_scan_room [OF room, of p]
  obtain d where d: "d < ?m"
    and scan: "addfintab_scan ?ks (int ?m) ?h ?m = Some (?ks ! idx ?m ?h d = 0, idx ?m ?h d)"
    and stop: "\<not> live (?ks ! idx ?m ?h d)"
    and before: "\<forall>d' < d. live (?ks ! idx ?m ?h d')"
    by blast
  let ?i0 = "idx ?m ?h d"
  have i0: "?i0 < ?m" using m by (rule idx_less)
  let ?t1 = "if ?ks ! ?i0 = 0 then t\<lparr>nkey := int32 (nkey t + 1)\<rparr>
             else t\<lparr>ndead := int32 (ndead t - 1)\<rparr>"
  let ?t' = "?t1\<lparr>key_tab := (key_tab ?t1)[?i0 := p], val_tab := (val_tab ?t1)[?i0 := v]\<rparr>"
  have res: "addfintab t p v = Res ?t'"
    using scan pos im len by (simp add: addfintab_def hash_slot_def Let_def)
  have pk: "p \<noteq> 0" "p \<noteq> - 1" using p(1) by (simp_all add: live_def)
  have c0: "int (count_list (?ks[?i0 := p]) 0)
              = int (count_list ?ks 0) - (if ?ks ! ?i0 = 0 then 1 else 0)"
    using count_list_update [OF i0, of p 0] pk by simp
  have c1: "int (count_list (?ks[?i0 := p]) (- 1))
              = int (count_list ?ks (- 1)) - (if ?ks ! ?i0 = - 1 then 1 else 0)"
    using count_list_update [OF i0, of p "- 1"] pk by simp
  have b: "0 \<le> ndead t" "ndead t \<le> nkey t" "nkey t \<le> max_tab t" "0 \<le> nkey t"
    using tab_inv_bounds [OF inv] by simp_all
  have pinv: "probe_inv (?ks[?i0 := p])"
    using inv p d before by (intro probe_inv_insert) (auto simp: tab_inv_def)
  have vals: "\<forall>a < ?m. live (?ks[?i0 := p] ! a) \<longrightarrow> ?vs[?i0 := v] ! a \<noteq> None"
  proof (intro allI impI)
    fix a assume a: "a < ?m" and l: "live (?ks[?i0 := p] ! a)"
    show "?vs[?i0 := v] ! a \<noteq> None"
    proof (cases "a = ?i0")
      case True
      with i0 len v show ?thesis by simp
    next
      case False
      with a l inv show ?thesis by (simp add: tab_inv_def)
    qed
  qed
  show ?thesis
  proof (cases "?ks ! ?i0 = 0")
    case True
    then have "0 < count_list ?ks 0" using i0 by (metis count_list_0_iff nth_mem not_gr_zero)
    with inv have "nkey t + 1 \<le> max_tab t" by (simp add: tab_inv_def)
    with mx b have w: "int32 (nkey t + 1) = nkey t + 1" by (intro int32_id) auto
    have "tab_inv ?t'"
      using True inv c0 c1 w pinv vals len by (simp add: tab_inv_def)
    with res True w i0 stop show ?thesis
      by (intro exI [of _ ?t'] exI [of _ ?i0]) simp
  next
    case False
    with stop have dead: "?ks ! ?i0 = - 1" by (simp add: live_def)
    then have "0 < count_list ?ks (- 1)" using i0 by (metis count_list_0_iff nth_mem not_gr_zero)
    with inv have "1 \<le> ndead t" by (simp add: tab_inv_def)
    with mx b have w: "int32 (ndead t - 1) = ndead t - 1" by (intro int32_id) auto
    have "tab_inv ?t'"
      using False dead inv c0 c1 w pinv vals len by (simp add: tab_inv_def)
    with res False w i0 stop show ?thesis
      by (intro exI [of _ ?t'] exI [of _ ?i0]) simp
  qed
qed

lemma entry_insert:
  assumes "i0 < length (key_tab t)" "length (val_tab t) = length (key_tab t)"
    and "\<not> live (key_tab t ! i0)"
    and "key_tab t' = (key_tab t)[i0 := p]" "val_tab t' = (val_tab t)[i0 := v]"
  shows "entry t' p v" and "live q \<Longrightarrow> entry t q w \<Longrightarrow> entry t' q w"
proof -
  show "entry t' p v" using assms by (auto simp: entry_def intro: exI [of _ i0])
next
  assume q: "live q" and e: "entry t q w"
  then obtain i where i: "i < length (key_tab t)" "key_tab t ! i = q" "val_tab t ! i = w"
    by (auto simp: entry_def)
  with q assms(3) have "i \<noteq> i0" by auto
  with i assms show "entry t' q w" by (auto simp: entry_def intro: exI [of _ i])
qed

lemma entry_in_set: "entry t q w \<Longrightarrow> q \<in> set (key_tab t)"
  by (auto simp: entry_def)

lemma lookfintab_entry:
  assumes "tab_inv t" "live q" "entry t q w"
  shows "\<exists>t'. lookfintab t q del = Res (w, t') \<and> (\<not> del \<longrightarrow> t' = t)"
proof -
  from assms(3) obtain i where i: "i < length (key_tab t)" "key_tab t ! i = q" "val_tab t ! i = w"
    by (auto simp: entry_def)
  from lookfintab_present [OF assms(1) i(1), of del] assms(2) i show ?thesis by auto
qed

subsection \<open>The rehash\<close>

lemma rehash_loop_ok:
  assumes uniq: "\<forall>i < length (key_tab old). \<forall>j < length (key_tab old).
                   live (key_tab old ! i) \<longrightarrow> key_tab old ! i = key_tab old ! j \<longrightarrow> i = j"
    and ovals: "\<forall>i < length (key_tab old). live (key_tab old ! i) \<longrightarrow> val_tab old ! i \<noteq> None"
    and "distinct js" "\<forall>i \<in> set js. i < length (key_tab old)"
    and "tab_inv new" "ndead new = 0"
    and "\<forall>i \<in> set js. live (key_tab old ! i) \<longrightarrow> key_tab old ! i \<notin> set (key_tab new)"
    and "nkey new + int (length (filter (\<lambda>i. live (key_tab old ! i)) js)) < max_tab new"
  shows "\<exists>new'. rehash_loop old js new = Res new' \<and> tab_inv new'
           \<and> max_tab new' = max_tab new \<and> ndead new' = 0
           \<and> nkey new' = nkey new + int (length (filter (\<lambda>i. live (key_tab old ! i)) js))
           \<and> set (key_tab new') \<subseteq> set (key_tab new) \<union> {key_tab old ! i |i. i \<in> set js \<and> live (key_tab old ! i)}
           \<and> (\<forall>q w. live q \<longrightarrow> entry new q w \<longrightarrow> entry new' q w)
           \<and> (\<forall>i \<in> set js. live (key_tab old ! i) \<longrightarrow> entry new' (key_tab old ! i) (val_tab old ! i))"
  using assms(3-8)
proof (induction js arbitrary: new)
  case Nil
  then show ?case by simp
next
  case (Cons i rest)
  let ?oks = "key_tab old"
  let ?p = "?oks ! i"
  from Cons.prems have dist: "distinct rest" "i \<notin> set rest"
    and bnd: "\<forall>a \<in> set rest. a < length ?oks" "i < length ?oks" by simp_all
  show ?case
  proof (cases "live ?p")
    case False
    from Cons.prems False
    have "\<forall>a \<in> set rest. live (?oks ! a) \<longrightarrow> ?oks ! a \<notin> set (key_tab new)"
      and "nkey new + int (length (filter (\<lambda>a. live (?oks ! a)) rest)) < max_tab new"
      by simp_all
    from Cons.IH [OF dist(1) bnd(1) Cons.prems(3,4) this]
    obtain new' where n: "rehash_loop old rest new = Res new'" "tab_inv new'"
      "max_tab new' = max_tab new" "ndead new' = 0"
      "nkey new' = nkey new + int (length (filter (\<lambda>a. live (?oks ! a)) rest))"
      "set (key_tab new') \<subseteq> set (key_tab new) \<union> {?oks ! a |a. a \<in> set rest \<and> live (?oks ! a)}"
      "\<forall>q w. live q \<longrightarrow> entry new q w \<longrightarrow> entry new' q w"
      "\<forall>a \<in> set rest. live (?oks ! a) \<longrightarrow> entry new' (?oks ! a) (val_tab old ! a)"
      by blast
    from False have r: "rehash_loop old (i # rest) new = rehash_loop old rest new"
      by (auto simp: live_def Let_def)
    from n(6) have "set (key_tab new') \<subseteq> set (key_tab new)
                      \<union> {?oks ! a |a. a \<in> set (i # rest) \<and> live (?oks ! a)}"
      by auto
    with n r False show ?thesis by (intro exI [of _ new']) simp
  next
    case True
    from Cons.prems True have absent: "?p \<notin> set (key_tab new)" by simp
    from Cons.prems True
    have cnt: "nkey new + 1 + int (length (filter (\<lambda>a. live (?oks ! a)) rest)) < max_tab new"
      by simp
    then have "nkey new < max_tab new" by linarith
    with Cons.prems(3) have room: "0 \<in> set (key_tab new)" by (rule tab_inv_room)
    from ovals bnd(2) True have pv: "val_tab old ! i \<noteq> None" by simp
    from addfintab_ok [OF Cons.prems(3) room True absent pv]
    obtain new1 i0 where a: "addfintab new ?p (val_tab old ! i) = Res new1" "tab_inv new1"
      "max_tab new1 = max_tab new" "i0 < length (key_tab new)" "\<not> live (key_tab new ! i0)"
      "key_tab new1 = (key_tab new)[i0 := ?p]" "val_tab new1 = (val_tab new)[i0 := val_tab old ! i]"
      "nkey new1 - ndead new1 = nkey new - ndead new + 1" "ndead new1 \<le> ndead new"
      by blast
    from a(2) have "0 \<le> ndead new1" by (rule tab_inv_bounds)
    with a(9) Cons.prems(4) have d1: "ndead new1 = 0" by simp
    with a(8) Cons.prems(4) have k1: "nkey new1 = nkey new + 1" by simp
    from Cons.prems(3) have lens: "length (val_tab new) = length (key_tab new)"
      by (simp add: tab_inv_def)
    note ei = entry_insert [OF a(4) lens a(5) a(6) a(7)]
    have sub1: "set (key_tab new1) \<subseteq> insert ?p (set (key_tab new))"
      using a(6) by (simp add: set_update_subset_insert)
    have fresh1: "\<forall>b \<in> set rest. live (?oks ! b) \<longrightarrow> ?oks ! b \<notin> set (key_tab new1)"
    proof (intro ballI impI)
      fix b assume b: "b \<in> set rest" "live (?oks ! b)"
      with Cons.prems(5) have "?oks ! b \<notin> set (key_tab new)" by simp
      moreover have "?oks ! b \<noteq> ?p"
      proof
        assume "?oks ! b = ?p"
        with uniq b bnd have "b = i" by (metis)
        with b(1) dist(2) show False by simp
      qed
      ultimately show "?oks ! b \<notin> set (key_tab new1)" using sub1 by auto
    qed
    from cnt k1 a(3)
    have room1: "nkey new1 + int (length (filter (\<lambda>a. live (?oks ! a)) rest)) < max_tab new1"
      by simp
    from Cons.IH [OF dist(1) bnd(1) a(2) d1 fresh1 room1]
    obtain new' where n: "rehash_loop old rest new1 = Res new'" "tab_inv new'"
      "max_tab new' = max_tab new1" "ndead new' = 0"
      "nkey new' = nkey new1 + int (length (filter (\<lambda>a. live (?oks ! a)) rest))"
      "set (key_tab new') \<subseteq> set (key_tab new1) \<union> {?oks ! a |a. a \<in> set rest \<and> live (?oks ! a)}"
      "\<forall>q w. live q \<longrightarrow> entry new1 q w \<longrightarrow> entry new' q w"
      "\<forall>a \<in> set rest. live (?oks ! a) \<longrightarrow> entry new' (?oks ! a) (val_tab old ! a)"
      by blast
    from True a(1) have r: "rehash_loop old (i # rest) new = rehash_loop old rest new1"
      by (simp add: live_def Let_def)
    from n(6) sub1 True
    have s: "set (key_tab new') \<subseteq> set (key_tab new)
               \<union> {?oks ! a |a. a \<in> set (i # rest) \<and> live (?oks ! a)}"
      by auto
    have e1: "\<forall>q w. live q \<longrightarrow> entry new q w \<longrightarrow> entry new' q w"
      using ei(2) n(7) by blast
    have e2: "\<forall>a \<in> set (i # rest). live (?oks ! a) \<longrightarrow> entry new' (?oks ! a) (val_tab old ! a)"
      using ei(1) n(7,8) True by auto
    have k: "nkey new' = nkey new + int (length (filter (\<lambda>a. live (?oks ! a)) (i # rest)))"
      using n(5) k1 True by simp
    from r n(1,2,4) n(3) a(3) k s e1 e2 show ?thesis
      by (intro exI [of _ new']) simp
  qed
qed

lemma count_list_replicate: "count_list (replicate n x) y = (if x = y then n else 0)"
  by (induction n) auto

lemma probe_inv_no_live: "\<forall>i < length ks. \<not> live (ks ! i) \<Longrightarrow> probe_inv ks"
  by (simp add: probe_inv_def)

lemma tab_inv_fresh:
  assumes "0 \<le> m" "m < 2 ^ 31"
  shows "tab_inv \<lparr>key_tab = replicate (nat m) 0, val_tab = replicate (nat m) None,
                   nkey = 0, ndead = 0, max_tab = m\<rparr>"
  using assms
  by (simp add: tab_inv_def count_list_replicate probe_inv_no_live live_def)

lemma live_slots_count:
  "length (filter (\<lambda>i. live (ks ! i)) [0..<length ks]) = length (filter live ks)"
proof -
  have "filter live (map (nth ks) [0..<length ks]) = map (nth ks) (filter (live \<circ> nth ks) [0..<length ks])"
    by (rule filter_map)
  then have "length (filter live (map (nth ks) [0..<length ks]))
               = length (filter (live \<circ> nth ks) [0..<length ks])"
    by simp
  moreover have "map (nth ks) [0..<length ks] = ks" by (rule map_nth)
  moreover have "(live \<circ> nth ks) = (\<lambda>i. live (ks ! i))" by (simp add: fun_eq_iff)
  ultimately show ?thesis by simp
qed

lemma threshold_grows: "27 \<le> (m :: int) \<Longrightarrow> m div 2 + m div 4 < 3 * m div 2 + 3 * m div 4"
  by linarith

lemma threshold_27: "27 \<le> (m :: int) \<Longrightarrow> 19 \<le> m div 2 + m div 4"
  by linarith

lemma threshold_below: "27 \<le> (m :: int) \<Longrightarrow> m div 2 + m div 4 < m"
  by linarith

lemma threshold_le: "0 \<le> (m :: int) \<Longrightarrow> m div 2 + m div 4 \<le> m"
  by linarith

lemma rehash_ok:
  assumes wf: "wf_fintab t"
    and trig: "nkey t \<ge> quot (max_tab t) 2 + quot (max_tab t) 4"
    and nov: "3 * max_tab t < 2 ^ 31"
  shows "\<exists>t'. rehash t = Res t' \<and> tab_inv t' \<and> ndead t' = 0
           \<and> nkey t' < max_tab t' div 2 + max_tab t' div 4 \<and> 27 \<le> max_tab t'
           \<and> max_tab t' = (if max_tab t = 0 then 27
                           else if ndead t < nkey t div 2 then 3 * max_tab t else max_tab t)
           \<and> set (key_tab t') \<subseteq> insert 0 (set (key_tab t))
           \<and> (\<forall>q w. live q \<longrightarrow> entry t q w \<longrightarrow> entry t' q w)"
proof -
  let ?ks = "key_tab t"
  let ?T = "max_tab t div 2 + max_tab t div 4"
  let ?M = "if max_tab t = 0 then 27
            else if ndead t < nkey t div 2 then 3 * max_tab t else max_tab t"
  from wf have inv: "tab_inv t" and le: "nkey t \<le> ?T" and sz: "max_tab t = 0 \<or> 27 \<le> max_tab t"
    by (simp_all add: wf_fintab_def)
  from inv have mx: "0 \<le> max_tab t" and len: "length ?ks = nat (max_tab t)"
    by (simp_all add: tab_inv_def)
  note b = tab_inv_bounds [OF inv]
  from mx have q: "quot (max_tab t) 2 = max_tab t div 2" "quot (max_tab t) 4 = max_tab t div 4"
    by (simp_all add: quot_nonneg)
  from b have qn: "quot (nkey t) 2 = nkey t div 2" by (simp add: quot_nonneg)
  from trig le q have eq: "nkey t = ?T" by simp
  have M0: "0 \<le> ?M" "?M < 2 ^ 31" "27 \<le> ?M" "max_tab t \<le> ?M"
    using mx nov sz by auto
  have i32: "int32 (max_tab t * 3) = 3 * max_tab t"
    using mx nov by (simp add: int32_id mult.commute)
  let ?new = "\<lparr>key_tab = replicate (nat ?M) 0, val_tab = replicate (nat ?M) None,
                nkey = 0, ndead = 0, max_tab = ?M\<rparr>"
  have r: "rehash t = rehash_loop t [0..<length ?ks] ?new"
    using len i32 qn by (simp add: rehash_def Let_def)
  have ninv: "tab_inv ?new" using M0 by (intro tab_inv_fresh) auto
  from inv have uniq: "\<forall>i < length ?ks. \<forall>j < length ?ks. live (?ks ! i) \<longrightarrow> ?ks ! i = ?ks ! j \<longrightarrow> i = j"
    and ovals: "\<forall>i < length ?ks. live (?ks ! i) \<longrightarrow> val_tab t ! i \<noteq> None"
    unfolding tab_inv_def probe_inv_def by blast+
  have "int (length (filter (\<lambda>i. live (?ks ! i)) [0..<length ?ks]))
          = int (length ?ks) - int (count_list ?ks 0) - int (count_list ?ks (- 1))"
    by (simp only: live_slots_count live_count)
  moreover from inv have "nkey t = int (length ?ks) - int (count_list ?ks 0)"
    and "ndead t = int (count_list ?ks (- 1))"
    unfolding tab_inv_def by blast+
  ultimately
  have cnt: "int (length (filter (\<lambda>i. live (?ks ! i)) [0..<length ?ks])) = nkey t - ndead t"
    by linarith
  have small: "nkey t - ndead t < ?M div 2 + ?M div 4"
  proof (cases "max_tab t = 0")
    case True
    with b show ?thesis by simp
  next
    case False
    with sz have big: "27 \<le> max_tab t" by simp
    have g: "?T < 3 * max_tab t div 2 + 3 * max_tab t div 4" using big by (rule threshold_grows)
    have h: "19 \<le> ?T" using big by (rule threshold_27)
    show ?thesis
    proof (cases "ndead t < nkey t div 2")
      case True
      with False b g show ?thesis by simp
    next
      case False
      then have "nkey t div 2 \<le> ndead t" by simp
      moreover have "19 \<le> nkey t" using h eq by simp
      then have "9 \<le> nkey t div 2" by linarith
      ultimately have "nkey t - ndead t < ?T" using eq by linarith
      with False \<open>max_tab t \<noteq> 0\<close> show ?thesis by simp
    qed
  qed
  have fits: "nkey t - ndead t < ?M"
  proof -
    have "?M div 2 + ?M div 4 \<le> ?M" using M0 by simp
    with small show ?thesis by linarith
  qed
  have fresh: "\<forall>i \<in> set [0..<length ?ks]. live (?ks ! i) \<longrightarrow> ?ks ! i \<notin> set (key_tab ?new)"
    by (auto simp: live_def)
  have room: "nkey ?new + int (length (filter (\<lambda>i. live (?ks ! i)) [0..<length ?ks])) < max_tab ?new"
    using cnt fits by simp
  from rehash_loop_ok [OF uniq ovals _ _ ninv _ fresh room]
  obtain t' where n: "rehash_loop t [0..<length ?ks] ?new = Res t'" "tab_inv t'"
    "max_tab t' = max_tab ?new" "ndead t' = 0"
    "nkey t' = nkey ?new + int (length (filter (\<lambda>i. live (?ks ! i)) [0..<length ?ks]))"
    "set (key_tab t') \<subseteq> set (key_tab ?new) \<union> {?ks ! i |i. i \<in> set [0..<length ?ks] \<and> live (?ks ! i)}"
    "\<forall>i \<in> set [0..<length ?ks]. live (?ks ! i) \<longrightarrow> entry t' (?ks ! i) (val_tab t ! i)"
    by auto
  have k: "nkey t' = nkey t - ndead t" using n(5) cnt by simp
  have sub: "set (key_tab t') \<subseteq> insert 0 (set ?ks)" using n(6) by auto
  have ent: "\<forall>q w. live q \<longrightarrow> entry t q w \<longrightarrow> entry t' q w"
  proof (intro allI impI)
    fix q w assume "live q" "entry t q w"
    then obtain i where "i < length ?ks" "?ks ! i = q" "val_tab t ! i = w"
      by (auto simp: entry_def)
    with n(7) \<open>live q\<close> show "entry t' q w" by auto
  qed
  from r n(1,2,4) n(3) k small M0 sub ent show ?thesis
    by (intro exI [of _ t']) simp
qed

subsection \<open>The operations keep the invariant\<close>

lemma lookfintab_scan_total:
  assumes "0 \<in> set ks"
  shows "lookfintab_scan ks p (int (length ks)) (unat p mod length ks) (length ks) \<noteq> None"
proof -
  let ?m = "length ks"
  let ?h = "unat p mod ?m"
  from assms(1) obtain i where i: "i < ?m" "ks ! i = 0" by (auto simp: in_set_conv_nth)
  then have m: "0 < ?m" by (cases ks) auto
  from first_stop [of i ?m "\<lambda>x. x = 0 \<or> x = p" ks ?h] i
  obtain d where d: "d < ?m" "ks ! idx ?m ?h d = 0 \<or> ks ! idx ?m ?h d = p"
    and before: "\<forall>d' < d. \<not> (ks ! idx ?m ?h d' = 0 \<or> ks ! idx ?m ?h d' = p)"
    by blast
  have "lookfintab_scan ks p (int ?m) (idx ?m ?h 0) ?m
          = (if ks ! idx ?m ?h (0 + d) = 0 then Some None else Some (Some (idx ?m ?h (0 + d))))"
    using d before by (intro lookfintab_scan_hit [OF m]) auto
  moreover have "idx ?m ?h 0 = ?h" using m by (simp add: idx_def)
  ultimately show ?thesis by simp
qed

lemma lookfintab_no_throw:
  assumes "tab_inv t" "max_tab t = 0 \<or> 0 \<in> set (key_tab t)"
  shows "lookfintab t p del \<noteq> Throw msg"
proof (cases "max_tab t = 0")
  case True
  then show ?thesis by (simp add: lookfintab_def)
next
  case False
  with assms have z: "0 \<in> set (key_tab t)" by simp
  from assms have len: "length (key_tab t) = nat (max_tab t)" and pos: "0 \<le> max_tab t"
    by (auto simp: tab_inv_def)
  then have im: "int (length (key_tab t)) = max_tab t" by simp
  from lookfintab_scan_total [OF z, of p] im len
  have "lookfintab_scan (key_tab t) p (max_tab t) (hash_slot p (max_tab t)) (nat (max_tab t))
          \<noteq> None"
    by (simp add: hash_slot_def)
  with False show ?thesis
    by (auto simp: lookfintab_def Let_def split: option.splits)
qed

lemma wf_room_or_empty: "wf_fintab t \<Longrightarrow> max_tab t = 0 \<or> 0 \<in> set (key_tab t)"
  using wf_room by blast

lemma wf_delete:
  assumes "wf_fintab t" "i < length (key_tab t)" "live (key_tab t ! i)"
  shows "wf_fintab (t\<lparr>key_tab := (key_tab t)[i := - 1],
                       val_tab := (val_tab t)[i := None],
                       ndead := int32 (ndead t + 1)\<rparr>)"
  using assms tab_inv_delete [of t i] by (simp add: wf_fintab_def)

lemma delete_removes:
  assumes "tab_inv t" "i < length (key_tab t)" "live (key_tab t ! i)"
  shows "key_tab t ! i \<notin> set ((key_tab t)[i := - 1])"
proof
  let ?ks = "key_tab t"
  assume "?ks ! i \<in> set (?ks[i := - 1])"
  then obtain j where j: "j < length ?ks" "?ks[i := - 1] ! j = ?ks ! i"
    by (auto simp: in_set_conv_nth)
  from assms(3) have "?ks ! i \<noteq> - 1" by (simp add: live_def)
  with j assms(2) have ne: "j \<noteq> i" by auto
  with j have "?ks ! j = ?ks ! i" by simp
  moreover from assms(1) have "\<forall>a < length ?ks. \<forall>b < length ?ks.
      live (?ks ! a) \<longrightarrow> ?ks ! a = ?ks ! b \<longrightarrow> a = b"
    unfolding tab_inv_def probe_inv_def by blast
  ultimately have "i = j" using assms(2,3) j(1) by metis
  with ne show False by simp
qed

lemma lookfintab_remove:
  assumes wf: "wf_fintab t" and p: "live p"
  shows "\<exists>v t'. lookfintab t p True = Res (v, t') \<and> wf_fintab t'
           \<and> p \<notin> set (key_tab t')
           \<and> max_tab t' = max_tab t
           \<and> (p \<notin> set (key_tab t) \<longrightarrow> t' = t \<and> v = None)
           \<and> (p \<in> set (key_tab t) \<longrightarrow> entry t p v)
           \<and> (\<forall>q w. q \<noteq> p \<longrightarrow> live q \<longrightarrow> entry t q w \<longrightarrow> entry t' q w)
           \<and> set (key_tab t') \<subseteq> insert (- 1) (set (key_tab t))"
proof (cases "p \<in> set (key_tab t)")
  case False
  from wf have inv: "tab_inv t" by (simp add: wf_fintab_def)
  from lookfintab_absent [OF inv wf_room_or_empty [OF wf], of p True] False
  have "lookfintab t p True = Res (None, t)" by simp
  with wf False show ?thesis by auto
next
  case True
  let ?ks = "key_tab t"
  from wf have inv: "tab_inv t" by (simp add: wf_fintab_def)
  from True obtain i where i: "i < length ?ks" "?ks ! i = p" by (auto simp: in_set_conv_nth)
  with p have l: "live (?ks ! i)" by simp
  let ?t' = "t\<lparr>key_tab := ?ks[i := - 1], val_tab := (val_tab t)[i := None],
                ndead := int32 (ndead t + 1)\<rparr>"
  from lookfintab_present [OF inv i(1) l, of True] i
  have r: "lookfintab t p True = Res (val_tab t ! i, ?t')" by simp
  have w: "wf_fintab ?t'" using wf i(1) l by (rule wf_delete)
  have gone: "p \<notin> set (key_tab ?t')" using delete_removes [OF inv i(1) l] i by simp
  have e: "entry t p (val_tab t ! i)" using i by (auto simp: entry_def)
  have others: "\<forall>q w. q \<noteq> p \<longrightarrow> live q \<longrightarrow> entry t q w \<longrightarrow> entry ?t' q w"
  proof (intro allI impI)
    fix q w assume q: "q \<noteq> p" "live q" "entry t q w"
    then obtain j where j: "j < length ?ks" "?ks ! j = q" "val_tab t ! j = w"
      by (auto simp: entry_def)
    with q i have "j \<noteq> i" by auto
    with j show "entry ?t' q w" by (auto simp: entry_def intro: exI [of _ j])
  qed
  have sub: "set (key_tab ?t') \<subseteq> insert (- 1) (set ?ks)"
    by (simp add: set_update_subset_insert)
  from r w gone e others sub True show ?thesis
    by (intro exI [of _ "val_tab t ! i"] exI [of _ ?t']) simp
qed

lemma lookfintab_wf:
  assumes wf: "wf_fintab t" and p: "p \<noteq> - 1" and r: "lookfintab t p del = Res (v, t')"
  shows "wf_fintab t'"
proof -
  from wf have inv: "tab_inv t" by (simp add: wf_fintab_def)
  show ?thesis
  proof (cases "p \<notin> set (key_tab t) \<or> p = 0")
    case True
    from lookfintab_absent [OF inv wf_room_or_empty [OF wf] True, of del] r wf
    show ?thesis by simp
  next
    case False
    with p have l: "live p" and "p \<in> set (key_tab t)" by (simp_all add: live_def)
    then obtain i where i: "i < length (key_tab t)" "key_tab t ! i = p"
      by (auto simp: in_set_conv_nth)
    from lookfintab_present [OF inv i(1), of del] i l r wf wf_delete [OF wf i(1)]
    show ?thesis by (auto split: if_splits)
  qed
qed

subsection \<open>runtime\<cdot>addfinalizer\<close>

lemma addfinalizer_invalid:
  "mlookup p \<noteq> Some p \<Longrightarrow>
     addfinalizer mlookup p f nr t = (Some ''addfinalizer on invalid pointer'', t)"
  by (simp add: addfinalizer_def Let_def)

lemma addfinalizer_double:
  assumes wf: "wf_fintab t" and heap: "mlookup p = Some p" and f: "f \<noteq> 0"
    and p: "installed t p"
  shows "addfinalizer mlookup p f nr t = (Some ''double finalizer'', t)"
proof -
  from wf have inv: "tab_inv t" by (simp add: wf_fintab_def)
  from p obtain i where i: "i < length (key_tab t)" "key_tab t ! i = p" and l: "live p"
    by (auto simp: installed_def in_set_conv_nth)
  from lookfintab_present [OF inv i(1), of False] i l
  have r: "lookfintab t p False = Res (val_tab t ! i, t)" by simp
  from inv i l have "val_tab t ! i \<noteq> None" unfolding tab_inv_def by blast
  with r heap f show ?thesis by (simp add: addfinalizer_def Let_def)
qed

lemma addfinalizer_remove:
  assumes heap: "mlookup p = Some p" and r: "lookfintab t p True = Res (v, t')"
  shows "addfinalizer mlookup p 0 nr t = (None, t')"
  using assms by (simp add: addfinalizer_def Let_def)

lemma addfinalizer_install:
  assumes wf: "wf_fintab t" and heap: "mlookup p = Some p" and f: "f \<noteq> 0"
    and p: "live p" "p \<notin> set (key_tab t)" and nov: "3 * max_tab t < 2 ^ 31"
  shows "\<exists>t'. addfinalizer mlookup p f nr t = (None, t') \<and> wf_fintab t'
           \<and> entry t' p (Some \<lparr>fn = f, nret = nr\<rparr>)
           \<and> (\<forall>q w. live q \<longrightarrow> entry t q w \<longrightarrow> entry t' q w)
           \<and> set (key_tab t') \<subseteq> insert p (insert 0 (set (key_tab t)))
           \<and> max_tab t' =
               (if nkey t \<ge> max_tab t div 2 + max_tab t div 4
                then (if max_tab t = 0 then 27
                      else if ndead t < nkey t div 2 then 3 * max_tab t else max_tab t)
                else max_tab t)"
proof -
  let ?e = "Some \<lparr>fn = f, nret = nr\<rparr>"
  let ?T = "max_tab t div 2 + max_tab t div 4"
  from wf have inv: "tab_inv t" and le: "nkey t \<le> ?T" and sz: "max_tab t = 0 \<or> 27 \<le> max_tab t"
    by (simp_all add: wf_fintab_def)
  from inv have mx: "0 \<le> max_tab t" by (simp add: tab_inv_def)
  then have q: "quot (max_tab t) 2 + quot (max_tab t) 4 = ?T" by (simp add: quot_nonneg)
  note b = tab_inv_bounds [OF inv]
  from lookfintab_absent [OF inv wf_room_or_empty [OF wf], of p False] p
  have look: "lookfintab t p False = Res (None, t)" by simp
  have "\<exists>t2. (if nkey t \<ge> quot (max_tab t) 2 + quot (max_tab t) 4 then rehash t else Res t) = Res t2
          \<and> tab_inv t2 \<and> nkey t2 < max_tab t2 div 2 + max_tab t2 div 4 \<and> 27 \<le> max_tab t2
          \<and> set (key_tab t2) \<subseteq> insert 0 (set (key_tab t))
          \<and> (\<forall>q w. live q \<longrightarrow> entry t q w \<longrightarrow> entry t2 q w)
          \<and> max_tab t2 =
               (if nkey t \<ge> ?T
                then (if max_tab t = 0 then 27
                      else if ndead t < nkey t div 2 then 3 * max_tab t else max_tab t)
                else max_tab t)"
  proof (cases "nkey t \<ge> ?T")
    case True
    with q have trig: "nkey t \<ge> quot (max_tab t) 2 + quot (max_tab t) 4" by simp
    from rehash_ok [OF wf trig nov] True q show ?thesis by auto
  next
    case False
    then have lt: "nkey t < ?T" by simp
    with b have "max_tab t \<noteq> 0" by auto
    with sz have "27 \<le> max_tab t" by simp
    with False q inv lt show ?thesis by auto
  qed
  then obtain t2 where t2:
    "(if nkey t \<ge> quot (max_tab t) 2 + quot (max_tab t) 4 then rehash t else Res t) = Res t2"
    "tab_inv t2" "nkey t2 < max_tab t2 div 2 + max_tab t2 div 4" "27 \<le> max_tab t2"
    "set (key_tab t2) \<subseteq> insert 0 (set (key_tab t))"
    "\<forall>q w. live q \<longrightarrow> entry t q w \<longrightarrow> entry t2 q w"
    "max_tab t2 =
       (if nkey t \<ge> ?T
        then (if max_tab t = 0 then 27
              else if ndead t < nkey t div 2 then 3 * max_tab t else max_tab t)
        else max_tab t)"
    by blast
  from t2(4) have "max_tab t2 div 2 + max_tab t2 div 4 < max_tab t2" by (rule threshold_below)
  with t2(3) have "nkey t2 < max_tab t2" by linarith
  with t2(2) have room: "0 \<in> set (key_tab t2)" by (rule tab_inv_room)
  from p t2(5) have absent: "p \<notin> set (key_tab t2)" by (auto simp: live_def)
  from addfintab_ok [OF t2(2) room p(1) absent, of ?e]
  obtain t3 i0 where t3: "addfintab t2 p ?e = Res t3" "tab_inv t3" "max_tab t3 = max_tab t2"
    "i0 < length (key_tab t2)" "\<not> live (key_tab t2 ! i0)"
    "key_tab t3 = (key_tab t2)[i0 := p]" "val_tab t3 = (val_tab t2)[i0 := ?e]"
    "nkey t3 \<le> nkey t2 + 1"
    by auto
  from t2(2) have lens: "length (val_tab t2) = length (key_tab t2)" by (simp add: tab_inv_def)
  note ei = entry_insert [OF t3(4) lens t3(5) t3(6) t3(7)]
  have res: "addfinalizer mlookup p f nr t = (None, t3)"
    using heap f look t2(1) t3(1) by (simp add: addfinalizer_def Let_def)
  have w3: "wf_fintab t3" using t3(2,3,8) t2(3,4) by (simp add: wf_fintab_def)
  have keep: "\<forall>q w. live q \<longrightarrow> entry t q w \<longrightarrow> entry t3 q w" using t2(6) ei(2) by blast
  have sub: "set (key_tab t3) \<subseteq> insert p (insert 0 (set (key_tab t)))"
    using t3(6) t2(5) set_update_subset_insert [of "key_tab t2" i0 p] by auto
  from res w3 ei(1) keep sub t3(3) t2(7) show ?thesis
    by (intro exI [of _ t3]) simp
qed

lemma addfinalizer_wf:
  assumes wf: "wf_fintab t" and heap: "mlookup p = Some p \<longrightarrow> live p"
    and nov: "3 * max_tab t < 2 ^ 31"
  shows "wf_fintab (snd (addfinalizer mlookup p f nr t))
         \<and> fst (addfinalizer mlookup p f nr t)
             \<in> {None, Some ''addfinalizer on invalid pointer'', Some ''double finalizer''}"
proof (cases "mlookup p = Some p")
  case False
  with wf show ?thesis by (simp add: addfinalizer_invalid)
next
  case True
  with heap have l: "live p" by simp
  show ?thesis
  proof (cases "f = 0")
    case True
    from lookfintab_remove [OF wf l] obtain v t' where
      r: "lookfintab t p True = Res (v, t')" "wf_fintab t'" by blast
    have "addfinalizer mlookup p 0 nr t = (None, t')"
      using \<open>mlookup p = Some p\<close> r(1) by (rule addfinalizer_remove)
    with r True show ?thesis by simp
  next
    case False
    show ?thesis
    proof (cases "p \<in> set (key_tab t)")
      case True
      with l have "installed t p" by (simp add: installed_def)
      have "addfinalizer mlookup p f nr t = (Some ''double finalizer'', t)"
        using wf \<open>mlookup p = Some p\<close> \<open>f \<noteq> 0\<close> \<open>installed t p\<close>
        by (rule addfinalizer_double)
      with wf show ?thesis by simp
    next
      case False
      have "\<exists>t'. addfinalizer mlookup p f nr t = (None, t') \<and> wf_fintab t'"
        using addfinalizer_install [where mlookup = mlookup and p = p and f = f and nr = nr and t = t]
          wf \<open>mlookup p = Some p\<close> \<open>f \<noteq> 0\<close> l False nov
        by blast
      then show ?thesis by auto
    qed
  qed
qed

lemma wf_fintab0: "wf_fintab fintab0"
  by (simp add: wf_fintab_def tab_inv_def fintab0_def probe_inv_def)

lemma heap_ok_live: "heap_ok mlookup \<Longrightarrow> mlookup p = Some p \<longrightarrow> live p"
  by (auto simp: heap_ok_def live_def)

lemma fin_reachable_wf: "fin_reachable t \<Longrightarrow> wf_fintab t"
proof (induction rule: fin_reachable.induct)
  case initial
  show ?case by (rule wf_fintab0)
next
  case (added t mlookup p f nr t')
  have "mlookup p = Some p \<longrightarrow> live p" using added.hyps(2) by (rule heap_ok_live)
  with added.IH have "wf_fintab (snd (addfinalizer mlookup p f nr t))"
    using added.hyps(3) addfinalizer_wf [where t = t and mlookup = mlookup and p = p] by blast
  with added.hyps(4) show ?case by simp
next
  case (got t p del v t')
  from got.hyps(3) have "lookfintab t p del = Res (v, t')" by (simp add: getfinalizer_def)
  with got.IH got.hyps(2) show ?case by (rule lookfintab_wf)
qed

lemma lookfintab_found_entry:
  assumes wf: "wf_fintab t" and q: "live q" and r: "lookfintab t q del = Res (Some e, t')"
  shows "entry t q (Some e)"
proof (cases "q \<in> set (key_tab t)")
  case False
  from wf have inv: "tab_inv t" by (simp add: wf_fintab_def)
  from lookfintab_absent [OF inv wf_room_or_empty [OF wf], of q del] False r
  show ?thesis by simp
next
  case True
  from wf have inv: "tab_inv t" by (simp add: wf_fintab_def)
  from True obtain i where i: "i < length (key_tab t)" "key_tab t ! i = q"
    by (auto simp: in_set_conv_nth)
  from lookfintab_present [OF inv i(1), of del] i q r
  have "val_tab t ! i = Some e" by simp
  with i show ?thesis by (auto simp: entry_def)
qed

lemma lookfintab_after_remove:
  assumes wf: "wf_fintab t" and p: "live p" and r: "lookfintab t p True = Res (v, t')"
  shows "lookfintab t' p del = Res (None, t')"
    and "live q \<Longrightarrow> q \<noteq> p \<Longrightarrow> lookfintab t q False = Res (Some e, t) \<Longrightarrow>
           lookfintab t' q False = Res (Some e, t')"
proof -
  from lookfintab_remove [OF wf p] r
  have w: "wf_fintab t'" and gone: "p \<notin> set (key_tab t')"
    and keep: "\<forall>q w. q \<noteq> p \<longrightarrow> live q \<longrightarrow> entry t q w \<longrightarrow> entry t' q w"
    by auto
  from w have inv: "tab_inv t'" by (simp add: wf_fintab_def)
  from lookfintab_absent [OF inv wf_room_or_empty [OF w], of p del] gone
  show "lookfintab t' p del = Res (None, t')" by simp
  assume q: "live q" "q \<noteq> p" and l: "lookfintab t q False = Res (Some e, t)"
  from lookfintab_found_entry [OF wf q(1) l] have "entry t q (Some e)" .
  with keep q have "entry t' q (Some e)" by blast
  from lookfintab_entry [OF inv q(1) this, of False]
  show "lookfintab t' q False = Res (Some e, t')" by auto
qed

lemma heap1_ok: "heap_ok heap1"
  by (simp add: heap_ok_def heap1_def)

lemma tab1_added: "addfinalizer heap1 64 4096 0 fintab0 = (None, tab1)"
  unfolding tab1_def by code_simp

lemma tab2_added: "addfinalizer heap1 91 8192 8 tab1 = (None, tab2)"
  unfolding tab2_def tab1_def by code_simp

lemma tab1_reachable: "fin_reachable tab1"
proof -
  have "3 * max_tab fintab0 < 2 ^ 31" by (simp add: fintab0_def)
  with fin_reachable.initial heap1_ok show ?thesis
    using tab1_added by (rule fin_reachable.added)
qed

lemma tab1_small: "3 * max_tab tab1 < 2 ^ 31"
  unfolding tab1_def by code_simp

lemma tab2_reachable: "fin_reachable tab2"
  using tab1_reachable heap1_ok tab1_small tab2_added by (rule fin_reachable.added)

lemma tab1_installed: "installed tab1 64 \<and> \<not> installed tab1 91"
  unfolding installed_def live_def tab1_def by code_simp

lemma tab2_slots:
  "hash_slot 64 27 = 10 \<and> hash_slot 91 27 = 10
   \<and> key_tab tab2 ! 10 = 64 \<and> key_tab tab2 ! 11 = 91"
  unfolding tab2_def tab1_def by code_simp

lemma tab2_lookup:
  "getfinalizer 91 False tab2 = Res (Some \<lparr>fn = 8192, nret = 8\<rparr>, tab2)"
  unfolding tab2_def tab1_def by code_simp

subsection \<open>The claims about the finalizer table\<close>

text \<open>
  C3. \<open>runtime\<cdot>addfinalizer(p, f, nret)\<close> with \<open>f\<close> not \<open>nil\<close> throws "addfinalizer on
  invalid pointer" when \<open>p\<close> is not the base address of a heap object, and throws
  "double finalizer" when a finalizer is installed for \<open>p\<close>; in both cases the table is
  the same after the call as before.
\<close>

theorem addfinalizer_fatal_errors:
  "f \<noteq> 0 \<longrightarrow>
     (mlookup p \<noteq> Some p \<longrightarrow>
        addfinalizer mlookup p f nr t = (Some ''addfinalizer on invalid pointer'', t))
     \<and> (fin_reachable t \<longrightarrow> mlookup p = Some p \<longrightarrow> installed t p \<longrightarrow>
          addfinalizer mlookup p f nr t = (Some ''double finalizer'', t))"
proof (intro impI conjI)
  assume "mlookup p \<noteq> Some p"
  then show "addfinalizer mlookup p f nr t = (Some ''addfinalizer on invalid pointer'', t)"
    by (rule addfinalizer_invalid)
next
  assume f: "f \<noteq> 0" and r: "fin_reachable t" and h: "mlookup p = Some p" and i: "installed t p"
  from r have "wf_fintab t" by (rule fin_reachable_wf)
  then show "addfinalizer mlookup p f nr t = (Some ''double finalizer'', t)"
    using h f i by (rule addfinalizer_double)
qed

theorem addfinalizer_fatal_errors_witness:
  "(4096 :: ptr) \<noteq> 0 \<and> heap1 65 \<noteq> Some 65
   \<and> addfinalizer heap1 65 4096 0 tab1 = (Some ''addfinalizer on invalid pointer'', tab1)
   \<and> fin_reachable tab1 \<and> heap1 64 = Some 64 \<and> installed tab1 64
   \<and> addfinalizer heap1 64 4096 0 tab1 = (Some ''double finalizer'', tab1)"
proof -
  have a: "(4096 :: ptr) \<noteq> 0" by simp
  have b: "heap1 65 \<noteq> Some 65" "heap1 64 = Some 64" by (simp_all add: heap1_def)
  have c: "installed tab1 64" using tab1_installed by simp
  from addfinalizer_fatal_errors [where f = 4096 and mlookup = heap1 and p = 65 and t = tab1 and nr = 0] a b
  have d: "addfinalizer heap1 65 4096 0 tab1 = (Some ''addfinalizer on invalid pointer'', tab1)"
    by blast
  from addfinalizer_fatal_errors [where f = 4096 and mlookup = heap1 and p = 64 and t = tab1 and nr = 0]
    a b c tab1_reachable
  have e: "addfinalizer heap1 64 4096 0 tab1 = (Some ''double finalizer'', tab1)"
    by blast
  from a b c d e tab1_reachable show ?thesis by blast
qed

text \<open>
  C4. On every table the program can have, for a heap base pointer \<open>p\<close>: when no
  finalizer is installed for \<open>p\<close>, \<open>addfinalizer(p, f, nret)\<close> with \<open>f\<close> not \<open>nil\<close> succeeds
  and \<open>getfinalizer(p, del)\<close> then returns the finalizer with that \<open>fn\<close> and \<open>nret\<close>; after
  a removal, by \<open>addfinalizer\<close> with \<open>f\<close> \<open>nil\<close> or by \<open>getfinalizer\<close> with \<open>del\<close> set,
  \<open>getfinalizer(p, del)\<close> returns \<open>nil\<close>; and every other key \<open>q\<close> that had a finalizer
  before the removal is found with the same finalizer after it.
\<close>

theorem finalizer_table_lookup:
  "fin_reachable t \<longrightarrow> heap_ok mlookup \<longrightarrow> mlookup p = Some p \<longrightarrow>
     (f \<noteq> 0 \<longrightarrow> \<not> installed t p \<longrightarrow> 3 * max_tab t < 2 ^ 31 \<longrightarrow>
        (\<exists>t'. addfinalizer mlookup p f nr t = (None, t')
           \<and> getfinalizer p False t' = Res (Some \<lparr>fn = f, nret = nr\<rparr>, t')
           \<and> (\<exists>t''. getfinalizer p True t' = Res (Some \<lparr>fn = f, nret = nr\<rparr>, t''))))
     \<and> (\<exists>t'. addfinalizer mlookup p 0 nr t = (None, t')
           \<and> getfinalizer p del t' = Res (None, t')
           \<and> (\<forall>q e. live q \<longrightarrow> q \<noteq> p \<longrightarrow> getfinalizer q False t = Res (Some e, t) \<longrightarrow>
                 getfinalizer q False t' = Res (Some e, t')))
     \<and> (\<exists>v t'. getfinalizer p True t = Res (v, t')
           \<and> getfinalizer p del t' = Res (None, t')
           \<and> (\<forall>q e. live q \<longrightarrow> q \<noteq> p \<longrightarrow> getfinalizer q False t = Res (Some e, t) \<longrightarrow>
                 getfinalizer q False t' = Res (Some e, t')))"
proof (intro impI)
  assume r: "fin_reachable t" and ok: "heap_ok mlookup" and h: "mlookup p = Some p"
  from r have wf: "wf_fintab t" by (rule fin_reachable_wf)
  from ok h have l: "live p" using heap_ok_live by blast
  have a: "f \<noteq> 0 \<longrightarrow> \<not> installed t p \<longrightarrow> 3 * max_tab t < 2 ^ 31 \<longrightarrow>
        (\<exists>t'. addfinalizer mlookup p f nr t = (None, t')
           \<and> getfinalizer p False t' = Res (Some \<lparr>fn = f, nret = nr\<rparr>, t')
           \<and> (\<exists>t''. getfinalizer p True t' = Res (Some \<lparr>fn = f, nret = nr\<rparr>, t'')))"
  proof (intro impI)
    assume f: "f \<noteq> 0" and n: "\<not> installed t p" and nov: "3 * max_tab t < 2 ^ 31"
    from n l have ab: "p \<notin> set (key_tab t)" by (simp add: installed_def)
    have "\<exists>t'. addfinalizer mlookup p f nr t = (None, t') \<and> wf_fintab t'
            \<and> entry t' p (Some \<lparr>fn = f, nret = nr\<rparr>)"
      using addfinalizer_install [where mlookup = mlookup and p = p and f = f and nr = nr and t = t]
        wf h f l ab nov
      by blast
    then obtain t' where t': "addfinalizer mlookup p f nr t = (None, t')" "wf_fintab t'"
      "entry t' p (Some \<lparr>fn = f, nret = nr\<rparr>)" by blast
    from t'(2) have inv: "tab_inv t'" by (simp add: wf_fintab_def)
    from lookfintab_entry [OF inv l t'(3), of False]
    have g1: "getfinalizer p False t' = Res (Some \<lparr>fn = f, nret = nr\<rparr>, t')"
      by (auto simp: getfinalizer_def)
    from lookfintab_entry [OF inv l t'(3), of True]
    have g2: "\<exists>t''. getfinalizer p True t' = Res (Some \<lparr>fn = f, nret = nr\<rparr>, t'')"
      by (auto simp: getfinalizer_def)
    from t'(1) g1 g2
    show "\<exists>t'. addfinalizer mlookup p f nr t = (None, t')
           \<and> getfinalizer p False t' = Res (Some \<lparr>fn = f, nret = nr\<rparr>, t')
           \<and> (\<exists>t''. getfinalizer p True t' = Res (Some \<lparr>fn = f, nret = nr\<rparr>, t''))"
      by blast
  qed
  from lookfintab_remove [OF wf l] obtain v t' where rm: "lookfintab t p True = Res (v, t')"
    by blast
  have ar: "addfinalizer mlookup p 0 nr t = (None, t')" using h rm by (rule addfinalizer_remove)
  have gone: "getfinalizer p del t' = Res (None, t')"
    using lookfintab_after_remove(1) [OF wf l rm] by (simp add: getfinalizer_def)
  have keep: "\<forall>q e. live q \<longrightarrow> q \<noteq> p \<longrightarrow> getfinalizer q False t = Res (Some e, t) \<longrightarrow>
                 getfinalizer q False t' = Res (Some e, t')"
    using lookfintab_after_remove(2) [OF wf l rm] by (simp add: getfinalizer_def)
  have gr: "getfinalizer p True t = Res (v, t')" using rm by (simp add: getfinalizer_def)
  from a ar gr gone keep
  show "(f \<noteq> 0 \<longrightarrow> \<not> installed t p \<longrightarrow> 3 * max_tab t < 2 ^ 31 \<longrightarrow>
        (\<exists>t'. addfinalizer mlookup p f nr t = (None, t')
           \<and> getfinalizer p False t' = Res (Some \<lparr>fn = f, nret = nr\<rparr>, t')
           \<and> (\<exists>t''. getfinalizer p True t' = Res (Some \<lparr>fn = f, nret = nr\<rparr>, t''))))
     \<and> (\<exists>t'. addfinalizer mlookup p 0 nr t = (None, t')
           \<and> getfinalizer p del t' = Res (None, t')
           \<and> (\<forall>q e. live q \<longrightarrow> q \<noteq> p \<longrightarrow> getfinalizer q False t = Res (Some e, t) \<longrightarrow>
                 getfinalizer q False t' = Res (Some e, t')))
     \<and> (\<exists>v t'. getfinalizer p True t = Res (v, t')
           \<and> getfinalizer p del t' = Res (None, t')
           \<and> (\<forall>q e. live q \<longrightarrow> q \<noteq> p \<longrightarrow> getfinalizer q False t = Res (Some e, t) \<longrightarrow>
                 getfinalizer q False t' = Res (Some e, t')))"
    by blast
qed

theorem finalizer_table_lookup_witness:
  "fin_reachable tab1 \<and> heap_ok heap1 \<and> heap1 91 = Some 91 \<and> (8192 :: ptr) \<noteq> 0
   \<and> \<not> installed tab1 91 \<and> 3 * max_tab tab1 < 2 ^ 31
   \<and> addfinalizer heap1 91 8192 8 tab1 = (None, tab2)
   \<and> getfinalizer 91 False tab2 = Res (Some \<lparr>fn = 8192, nret = 8\<rparr>, tab2)
   \<and> fin_reachable tab2 \<and> heap1 64 = Some 64 \<and> live 91 \<and> (91 :: ptr) \<noteq> 64
   \<and> hash_slot 64 27 = hash_slot 91 27
   \<and> (\<exists>v t'. getfinalizer 64 True tab2 = Res (v, t')
         \<and> getfinalizer 64 False t' = Res (None, t')
         \<and> getfinalizer 91 False t' = Res (Some \<lparr>fn = 8192, nret = 8\<rparr>, t'))
   \<and> (\<exists>t'. addfinalizer heap1 64 0 0 tab2 = (None, t')
         \<and> getfinalizer 64 False t' = Res (None, t')
         \<and> getfinalizer 91 False t' = Res (Some \<lparr>fn = 8192, nret = 8\<rparr>, t'))"
proof -
  have h: "heap1 91 = Some 91" "heap1 64 = Some 64" by (simp_all add: heap1_def)
  have f: "(8192 :: ptr) \<noteq> 0" by simp
  have n: "\<not> installed tab1 91" using tab1_installed by simp
  have l: "live 91" "(91 :: ptr) \<noteq> 64" by (simp_all add: live_def)
  have c: "hash_slot 64 27 = hash_slot 91 27" using tab2_slots by simp
  note a = finalizer_table_lookup [where t = tab1 and mlookup = heap1 and p = 91 and f = 8192
      and nr = 8 and del = False]
  from a tab1_reachable heap1_ok h(1) f n tab1_small
  obtain t' where t': "addfinalizer heap1 91 8192 8 tab1 = (None, t')"
    "getfinalizer 91 False t' = Res (Some \<lparr>fn = 8192, nret = 8\<rparr>, t')"
    by blast
  from t'(1) tab2_added have "t' = tab2" by simp
  with t'(2) have g: "getfinalizer 91 False tab2 = Res (Some \<lparr>fn = 8192, nret = 8\<rparr>, tab2)"
    by simp
  note b = finalizer_table_lookup [where t = tab2 and mlookup = heap1 and p = 64 and f = 0
      and nr = 0 and del = False]
  from b tab2_reachable heap1_ok h(2)
  obtain t1 where t1: "addfinalizer heap1 64 0 0 tab2 = (None, t1)"
    "getfinalizer 64 False t1 = Res (None, t1)"
    "\<forall>q e. live q \<longrightarrow> q \<noteq> 64 \<longrightarrow> getfinalizer q False tab2 = Res (Some e, tab2) \<longrightarrow>
        getfinalizer q False t1 = Res (Some e, t1)"
    by blast
  from t1(3) l g have k1: "getfinalizer 91 False t1 = Res (Some \<lparr>fn = 8192, nret = 8\<rparr>, t1)"
    by blast
  from b tab2_reachable heap1_ok h(2)
  obtain v t2 where t2: "getfinalizer 64 True tab2 = Res (v, t2)"
    "getfinalizer 64 False t2 = Res (None, t2)"
    "\<forall>q e. live q \<longrightarrow> q \<noteq> 64 \<longrightarrow> getfinalizer q False tab2 = Res (Some e, tab2) \<longrightarrow>
        getfinalizer q False t2 = Res (Some e, t2)"
    by blast
  from t2(3) l g have k2: "getfinalizer 91 False t2 = Res (Some \<lparr>fn = 8192, nret = 8\<rparr>, t2)"
    by blast
  from tab1_reachable heap1_ok h f n tab1_small tab2_added g tab2_reachable l c t1(1,2) k1
    t2(1,2) k2
  show ?thesis by blast
qed

text \<open>
  C9. Every table the program can have is at most 3/4 full: \<open>nkey\<close> is at most
  \<open>max/2 + max/4\<close>. A successful \<open>runtime\<cdot>addfinalizer\<close> with \<open>f\<close> not \<open>nil\<close> leaves a
  table of the old size when \<open>nkey < max/2 + max/4\<close> held before the call, and otherwise
  one it has rehashed into: of 27 slots for the first, of three times the size when
  \<open>ndead < nkey/2\<close>, of the same size when more entries are dead. No
  \<open>runtime\<cdot>getfinalizer\<close> throws, and no \<open>runtime\<cdot>addfinalizer\<close> throws "finalizer table
  inconsistent": the scans of \<open>lookfintab\<close> and \<open>addfintab\<close> end at a free slot or at a
  match.
\<close>

theorem fintab_three_quarters_full:
  "fin_reachable t \<longrightarrow>
     nkey t \<le> max_tab t div 2 + max_tab t div 4
     \<and> 4 * nkey t \<le> 3 * max_tab t
     \<and> getfinalizer p del t \<noteq> Throw msg
     \<and> (heap_ok mlookup \<longrightarrow> 3 * max_tab t < 2 ^ 31 \<longrightarrow>
          fst (addfinalizer mlookup p f nr t) \<noteq> Some ''finalizer table inconsistent''
          \<and> (f \<noteq> 0 \<longrightarrow> fst (addfinalizer mlookup p f nr t) = None \<longrightarrow>
               max_tab (snd (addfinalizer mlookup p f nr t)) =
                 (if nkey t \<ge> max_tab t div 2 + max_tab t div 4
                  then (if max_tab t = 0 then 27
                        else if ndead t < nkey t div 2 then 3 * max_tab t else max_tab t)
                  else max_tab t)))"
proof (intro impI)
  assume r: "fin_reachable t"
  then have wf: "wf_fintab t" by (rule fin_reachable_wf)
  then have inv: "tab_inv t" and le: "nkey t \<le> max_tab t div 2 + max_tab t div 4"
    by (simp_all add: wf_fintab_def)
  from inv have "0 \<le> max_tab t" by (simp add: tab_inv_def)
  with le have q: "4 * nkey t \<le> 3 * max_tab t" by linarith
  have g: "getfinalizer p del t \<noteq> Throw msg"
    using lookfintab_no_throw [OF inv wf_room_or_empty [OF wf]] by (simp add: getfinalizer_def)
  have a: "heap_ok mlookup \<longrightarrow> 3 * max_tab t < 2 ^ 31 \<longrightarrow>
          fst (addfinalizer mlookup p f nr t) \<noteq> Some ''finalizer table inconsistent''
          \<and> (f \<noteq> 0 \<longrightarrow> fst (addfinalizer mlookup p f nr t) = None \<longrightarrow>
               max_tab (snd (addfinalizer mlookup p f nr t)) =
                 (if nkey t \<ge> max_tab t div 2 + max_tab t div 4
                  then (if max_tab t = 0 then 27
                        else if ndead t < nkey t div 2 then 3 * max_tab t else max_tab t)
                  else max_tab t))"
  proof (intro impI conjI)
    assume ok: "heap_ok mlookup" and nov: "3 * max_tab t < 2 ^ 31"
    have hl: "mlookup p = Some p \<longrightarrow> live p" using ok by (rule heap_ok_live)
    have "fst (addfinalizer mlookup p f nr t)
            \<in> {None, Some ''addfinalizer on invalid pointer'', Some ''double finalizer''}"
      using addfinalizer_wf [where t = t and mlookup = mlookup and p = p] wf hl nov by blast
    then show "fst (addfinalizer mlookup p f nr t) \<noteq> Some ''finalizer table inconsistent''"
      by auto
    assume f: "f \<noteq> 0" and s: "fst (addfinalizer mlookup p f nr t) = None"
    have h: "mlookup p = Some p"
    proof (rule ccontr)
      assume "mlookup p \<noteq> Some p"
      then have "addfinalizer mlookup p f nr t = (Some ''addfinalizer on invalid pointer'', t)"
        by (rule addfinalizer_invalid)
      with s show False by simp
    qed
    with hl have l: "live p" by simp
    have ab: "p \<notin> set (key_tab t)"
    proof
      assume "p \<in> set (key_tab t)"
      with l have "installed t p" by (simp add: installed_def)
      with wf h f have "addfinalizer mlookup p f nr t = (Some ''double finalizer'', t)"
        by (rule addfinalizer_double)
      with s show False by simp
    qed
    have "\<exists>t'. addfinalizer mlookup p f nr t = (None, t')
            \<and> max_tab t' =
               (if nkey t \<ge> max_tab t div 2 + max_tab t div 4
                then (if max_tab t = 0 then 27
                      else if ndead t < nkey t div 2 then 3 * max_tab t else max_tab t)
                else max_tab t)"
      using addfinalizer_install [where mlookup = mlookup and p = p and f = f and nr = nr and t = t]
        wf h f l ab nov
      by blast
    then show "max_tab (snd (addfinalizer mlookup p f nr t)) =
                 (if nkey t \<ge> max_tab t div 2 + max_tab t div 4
                  then (if max_tab t = 0 then 27
                        else if ndead t < nkey t div 2 then 3 * max_tab t else max_tab t)
                  else max_tab t)"
      by auto
  qed
  from le q g a
  show "nkey t \<le> max_tab t div 2 + max_tab t div 4
     \<and> 4 * nkey t \<le> 3 * max_tab t
     \<and> getfinalizer p del t \<noteq> Throw msg
     \<and> (heap_ok mlookup \<longrightarrow> 3 * max_tab t < 2 ^ 31 \<longrightarrow>
          fst (addfinalizer mlookup p f nr t) \<noteq> Some ''finalizer table inconsistent''
          \<and> (f \<noteq> 0 \<longrightarrow> fst (addfinalizer mlookup p f nr t) = None \<longrightarrow>
               max_tab (snd (addfinalizer mlookup p f nr t)) =
                 (if nkey t \<ge> max_tab t div 2 + max_tab t div 4
                  then (if max_tab t = 0 then 27
                        else if ndead t < nkey t div 2 then 3 * max_tab t else max_tab t)
                  else max_tab t)))"
    by blast
qed

theorem fintab_three_quarters_full_witness:
  "fin_reachable fintab0 \<and> heap_ok heap1 \<and> 3 * max_tab fintab0 < 2 ^ 31
   \<and> (4096 :: ptr) \<noteq> 0
   \<and> fst (addfinalizer heap1 64 4096 0 fintab0) = None
   \<and> nkey fintab0 \<ge> max_tab fintab0 div 2 + max_tab fintab0 div 4
   \<and> max_tab (snd (addfinalizer heap1 64 4096 0 fintab0)) = 27
   \<and> fin_reachable tab2 \<and> 4 * nkey tab2 \<le> 3 * max_tab tab2
   \<and> getfinalizer 37 True tab2 \<noteq> Throw ''finalizer table inconsistent''
   \<and> fst (addfinalizer heap1 64 4096 0 tab2) \<noteq> Some ''finalizer table inconsistent''"
proof -
  have a: "3 * max_tab fintab0 < 2 ^ 31" "nkey fintab0 \<ge> max_tab fintab0 div 2 + max_tab fintab0 div 4"
    "max_tab fintab0 = 0"
    by (simp_all add: fintab0_def)
  have f: "(4096 :: ptr) \<noteq> 0" by simp
  have s: "fst (addfinalizer heap1 64 4096 0 fintab0) = None" using tab1_added by simp
  have b: "3 * max_tab tab2 < 2 ^ 31" unfolding tab2_def tab1_def by code_simp
  from fintab_three_quarters_full [where t = fintab0 and mlookup = heap1 and p = 64
      and f = 4096 and nr = 0 and del = False and msg = "[]"]
    fin_reachable.initial heap1_ok a f s
  have m: "max_tab (snd (addfinalizer heap1 64 4096 0 fintab0)) = 27" by simp
  from fintab_three_quarters_full [where t = tab2 and mlookup = heap1 and p = 37
      and f = 4096 and nr = 0 and del = True and msg = "''finalizer table inconsistent''"]
    tab2_reachable
  have c: "4 * nkey tab2 \<le> 3 * max_tab tab2"
    "getfinalizer 37 True tab2 \<noteq> Throw ''finalizer table inconsistent''"
    by blast+
  from fintab_three_quarters_full [where t = tab2 and mlookup = heap1 and p = 64
      and f = 4096 and nr = 0 and del = True and msg = "[]"]
    tab2_reachable heap1_ok b
  have d: "fst (addfinalizer heap1 64 4096 0 tab2) \<noteq> Some ''finalizer table inconsistent''"
    by blast
  from fin_reachable.initial heap1_ok a f s m tab2_reachable c d show ?thesis by blast
qed

end
